theory Spec2Isabelle
  imports Main "HOL-Library.Word"
begin

section \<open>liblipo: LiPo cell voltage monitor\<close>

text \<open>
  A shallow embedding of \<^verbatim>\<open>src/lipo.cpp\<close> and \<^verbatim>\<open>src/lipo/lipo.hpp\<close>.
  The target is a 32-bit STM32: \<^verbatim>\<open>uint8_t\<close>, \<^verbatim>\<open>uint16_t\<close> and \<^verbatim>\<open>uint32_t\<close> are
  words whose arithmetic wraps, \<^verbatim>\<open>int8_t\<close> is an 8-bit word read with \<open>sint\<close>.
  Every place where the C++ has undefined behaviour (an array index outside the
  array, a division by zero, a shift by 32 or more) is an error value of the model.
\<close>

type_synonym u8 = "8 word"
type_synonym u16 = "16 word"
type_synonym u32 = "32 word"
type_synonym i8 = "8 word"

subsection \<open>Configuration macros of lipo.hpp\<close>

definition LIPO_ADCCHANNEL_0 :: u8 where
  "LIPO_ADCCHANNEL_0 = 0"

definition LIPO_ADCCHANNELS :: nat where
  "LIPO_ADCCHANNELS = 6"

definition LIPO_DEFAULT_GATETIME :: u16 where
  "LIPO_DEFAULT_GATETIME = 250"

definition LIPO_VCELL_MIN :: u32 where
  "LIPO_VCELL_MIN = 250"

definition LIPO_VREFINT :: u32 where
  "LIPO_VREFINT = 1200"

definition LIPO_DENOMINATOR :: u8 where
  "LIPO_DENOMINATOR = 11"

subsection \<open>Macros of the STM32 low-level ADC driver\<close>

text \<open>
  Modelled from the spec: the macro \<^verbatim>\<open>__LL_ADC_DIGITAL_SCALE(LL_ADC_RESOLUTION_12B)\<close>
  of \<^verbatim>\<open>stm32yyxx_ll_adc.h\<close>, which is not part of the repository. The spec gives the
  full-scale digital code of the 12-bit ADC as 4095.
\<close>

definition LL_ADC_DIGITAL_SCALE_12B :: u32 where
  "LL_ADC_DIGITAL_SCALE_12B = 4095"

text \<open>
  Modelled from the spec: the macro \<^verbatim>\<open>__LL_ADC_CALC_DATA_TO_VOLTAGE(vref, data, res)\<close>
  of \<^verbatim>\<open>stm32yyxx_ll_adc.h\<close>, which is not part of the repository. The spec states it as
  \<^verbatim>\<open>raw_mV = referenceVoltage_mV * accumulator[i] / FullScaleCode\<close>, in the unsigned
  32-bit arithmetic of its operands.
\<close>

definition LL_ADC_CALC_DATA_TO_VOLTAGE :: "u32 \<Rightarrow> u32 \<Rightarrow> u32" where
  "LL_ADC_CALC_DATA_TO_VOLTAGE vref data = vref * data div LL_ADC_DIGITAL_SCALE_12B"

subsection \<open>Data model\<close>

datatype error =
    ArrayIndexOutOfBounds
  | VrefDivideByZero
  | AverageDivideByZero
  | ScaleDivideByZero
  | ShiftOutOfRange

text \<open>\<^verbatim>\<open>BatteryParams_t\<close>: the structure owned by the caller; the object holds a pointer to it.\<close>

record BatteryParams_t =
  CellScale :: "u32 list"

text \<open>The data members of \<^verbatim>\<open>class LiPo\<close>, except the pointer \<^verbatim>\<open>pParam\<close>: the structure
  it points to is passed to, and returned by, the operations that use it.\<close>

record LiPo =
  CellScaleDen :: u8
  AdcChStart :: u8
  AdcChCnt :: u8
  GateTime :: u16
  LastTick :: u32
  SampleCnt :: u32
  Samples :: u32
  VRefAdc :: u32
  Accu :: "u32 list"
  VCell :: "u32 list"

text \<open>
  The board: \<^verbatim>\<open>analogRead\<close> and \<^verbatim>\<open>millis\<close> of the Arduino core. What the \<open>k\<close>-th call
  of \<^verbatim>\<open>analogRead\<close> returns on a pin is \<open>adc_in k pin\<close>, what the \<open>k\<close>-th call of
  \<^verbatim>\<open>millis\<close> returns is \<open>clk_in k\<close>; \<open>adc_n\<close> and \<open>clk_n\<close> count the calls made so far.
  \<open>AVREF\<close> is the core's pin number of the internal reference channel.
\<close>

record board =
  AVREF :: u32
  adc_in :: "nat \<Rightarrow> u32 \<Rightarrow> u32"
  adc_n :: nat
  clk_in :: "nat \<Rightarrow> u32"
  clk_n :: nat

definition analogRead :: "u32 \<Rightarrow> board \<Rightarrow> u32 \<times> board" where
  "analogRead pin h = (adc_in h (adc_n h) pin, h\<lparr>adc_n := Suc (adc_n h)\<rparr>)"

definition millis :: "board \<Rightarrow> u32 \<times> board" where
  "millis h = (clk_in h (clk_n h), h\<lparr>clk_n := Suc (clk_n h)\<rparr>)"

text \<open>Reading a C array: an index outside the array is undefined behaviour.\<close>

definition array_get :: "'a list \<Rightarrow> nat \<Rightarrow> error + 'a" where
  "array_get xs i = (if i < length xs then Inr (xs ! i) else Inl ArrayIndexOutOfBounds)"

definition array_set :: "'a list \<Rightarrow> nat \<Rightarrow> 'a \<Rightarrow> error + 'a list" where
  "array_set xs i v = (if i < length xs then Inr (xs[i := v]) else Inl ArrayIndexOutOfBounds)"

subsection \<open>Construction and simple accessors\<close>

text \<open>The constructor: both arrays have \<^verbatim>\<open>LIPO_ADCCHANNELS\<close> elements, cleared by memset.\<close>

definition LiPo_ctor :: LiPo where
  "LiPo_ctor =
     \<lparr> CellScaleDen = LIPO_DENOMINATOR,
       AdcChStart = LIPO_ADCCHANNEL_0,
       AdcChCnt = of_nat LIPO_ADCCHANNELS,
       GateTime = LIPO_DEFAULT_GATETIME,
       LastTick = 0,
       SampleCnt = 0,
       Samples = 0,
       VRefAdc = 0,
       Accu = replicate LIPO_ADCCHANNELS 0,
       VCell = replicate LIPO_ADCCHANNELS 0 \<rparr>"

definition setGateTime :: "u16 \<Rightarrow> LiPo \<Rightarrow> LiPo" where
  "setGateTime ms s = s\<lparr>GateTime := ms\<rparr>"

text \<open>\<^verbatim>\<open>getSamples\<close> returns the 32-bit member as \<^verbatim>\<open>uint16_t\<close>.\<close>

definition getSamples :: "LiPo \<Rightarrow> u16" where
  "getSamples s = ucast (Samples s)"

definition getVref :: "LiPo \<Rightarrow> u32" where
  "getVref s = VRefAdc s"

text \<open>
  What the constructor establishes and no member function changes: the size of the
  arrays, the channel count and the constant denominator. The parameter structure has
  an array of the same size.
\<close>

definition wf_obj :: "LiPo \<Rightarrow> bool" where
  "wf_obj s = (length (Accu s) = LIPO_ADCCHANNELS \<and> length (VCell s) = LIPO_ADCCHANNELS
     \<and> AdcChCnt s = of_nat LIPO_ADCCHANNELS \<and> CellScaleDen s = LIPO_DENOMINATOR)"

definition wf_params :: "BatteryParams_t \<Rightarrow> bool" where
  "wf_params p = (length (CellScale p) = LIPO_ADCCHANNELS)"

subsection \<open>getCell\<close>

text \<open>
  \<^verbatim>\<open>cell - 1\<close> is computed in \<^verbatim>\<open>int\<close>; it is reached with \<open>cell \<noteq> 0\<close> only.
\<close>

definition getCell :: "LiPo \<Rightarrow> u8 \<Rightarrow> bool \<Rightarrow> error + u32" where
  "getCell s cell absolute =
     (if cell = 0 \<or> absolute then array_get (VCell s) (unat cell)
      else if cell \<ge> AdcChCnt s then Inr 0
      else (case array_get (VCell s) (unat cell) of
              Inl e \<Rightarrow> Inl e
            | Inr a \<Rightarrow>
               (case array_get (VCell s) (unat cell - 1) of
                  Inl e \<Rightarrow> Inl e
                | Inr b \<Rightarrow> if a \<ge> b then Inr (a - b) else Inr 0)))"

subsection \<open>getNumCells\<close>

text \<open>
  The loop of \<^verbatim>\<open>getNumCells\<close>. The counter \<^verbatim>\<open>uint8_t i\<close> is incremented only while
  \<open>i < AdcChCnt \<le> 255\<close>, so it never wraps and is a natural number here; it is passed
  to \<^verbatim>\<open>getCell\<close> as \<^verbatim>\<open>uint8_t\<close>. \<^verbatim>\<open>cells\<close> is an \<^verbatim>\<open>int8_t\<close>. The \<^verbatim>\<open>break\<close> leaves the
  loop with \<open>cells = -1\<close>.
\<close>

function getNumCells_loop :: "LiPo \<Rightarrow> nat \<Rightarrow> i8 \<Rightarrow> bool \<Rightarrow> error + i8" where
  "getNumCells_loop s i cells dn =
     (if i < unat (AdcChCnt s) then
        (case getCell s (of_nat i) False of
           Inl e \<Rightarrow> Inl e
         | Inr v \<Rightarrow>
            if v \<ge> LIPO_VCELL_MIN then
              (if \<not> dn then getNumCells_loop s (Suc i) (cells + 1) dn
               else Inr (- 1))
            else getNumCells_loop s (Suc i) cells True)
      else Inr cells)"
  by pat_completeness auto
termination
  by (relation "measure (\<lambda>(s, i, cells, dn). unat (AdcChCnt s) - i)") auto

declare getNumCells_loop.simps [simp del]

definition getNumCells :: "LiPo \<Rightarrow> error + i8" where
  "getNumCells s = getNumCells_loop s 0 0 False"

subsection \<open>getMinCell\<close>

text \<open>
  The loop of \<^verbatim>\<open>getMinCell\<close>: \<^verbatim>\<open>i < cells\<close> compares the \<^verbatim>\<open>uint8_t\<close> counter with the
  \<^verbatim>\<open>int8_t\<close> count as \<^verbatim>\<open>int\<close>; the counter stays below 128.
\<close>

function getMinCell_loop :: "LiPo \<Rightarrow> i8 \<Rightarrow> nat \<Rightarrow> u32 \<Rightarrow> error + u32" where
  "getMinCell_loop s cells i volt =
     (if int i < sint cells then
        (case getCell s (of_nat i) False of
           Inl e \<Rightarrow> Inl e
         | Inr cell \<Rightarrow>
            getMinCell_loop s cells (Suc i)
              (if cell \<ge> LIPO_VCELL_MIN then min volt cell else volt))
      else Inr volt)"
  by pat_completeness auto
termination
  by (relation "measure (\<lambda>(s, cells, i, volt). nat (sint cells) - i)") auto

declare getMinCell_loop.simps [simp del]

definition getMinCell :: "LiPo \<Rightarrow> error + u32" where
  "getMinCell s =
     (case getNumCells s of
        Inl e \<Rightarrow> Inl e
      | Inr cells \<Rightarrow>
         if 0 < sint cells then getMinCell_loop s cells 0 0xFFFFFFFF else Inr 0)"

text \<open>A channel holds a valid cell when \<^verbatim>\<open>getCell(i)\<close> is at least \<^verbatim>\<open>LIPO_VCELL_MIN\<close>.\<close>

definition valid_cell :: "LiPo \<Rightarrow> nat \<Rightarrow> bool" where
  "valid_cell s i = (case getCell s (of_nat i) False of Inl e \<Rightarrow> False | Inr v \<Rightarrow> v \<ge> LIPO_VCELL_MIN)"

subsection \<open>updateVref and update\<close>

text \<open>
  \<^verbatim>\<open>LIPO_VREFINT * __LL_ADC_DIGITAL_SCALE(LL_ADC_RESOLUTION_12B) / analogRead(AVREF)\<close>:
  a reading of 0 divides by zero.
\<close>

definition updateVref :: "LiPo \<Rightarrow> board \<Rightarrow> error + LiPo \<times> board" where
  "updateVref s h =
     (case analogRead (AVREF h) h of
        (r, h') \<Rightarrow>
          if r = 0 then Inl VrefDivideByZero
          else Inr (s\<lparr>VRefAdc := LIPO_VREFINT * LL_ADC_DIGITAL_SCALE_12B div r\<rparr>, h'))"

text \<open>The body of the loop of \<^verbatim>\<open>update\<close> for channel \<open>i\<close>, statement by statement.\<close>

definition update_channel :: "BatteryParams_t \<Rightarrow> nat \<Rightarrow> LiPo \<Rightarrow> error + LiPo" where
  "update_channel p i s =
     (case array_get (Accu s) i of
        Inl e \<Rightarrow> Inl e
      | Inr a \<Rightarrow>
         if SampleCnt s = 0 then Inl AverageDivideByZero
         else
           let s1 = s\<lparr>Accu := (Accu s)[i := a div SampleCnt s]\<rparr> in
           (case array_set (VCell s1) i (LL_ADC_CALC_DATA_TO_VOLTAGE (VRefAdc s1) (Accu s1 ! i)) of
              Inl e \<Rightarrow> Inl e
            | Inr vc \<Rightarrow>
               let s2 = s1\<lparr>VCell := vc\<rparr> in
               (case array_get (CellScale p) i of
                  Inl e \<Rightarrow> Inl e
                | Inr sc \<Rightarrow>
                   if 32 \<le> unat (CellScaleDen s2) then Inl ShiftOutOfRange
                   else
                     let s3 = s2\<lparr>VCell := (VCell s2)
                                [i := drop_bit (unat (CellScaleDen s2)) (VCell s2 ! i * sc)]\<rparr>
                     in Inr (s3\<lparr>Accu := (Accu s3)[i := 0]\<rparr>))))"

text \<open>The loop of \<^verbatim>\<open>update\<close>; the counter is a \<^verbatim>\<open>size_t\<close> below 256.\<close>

function update_loop :: "BatteryParams_t \<Rightarrow> nat \<Rightarrow> LiPo \<Rightarrow> error + LiPo" where
  "update_loop p i s =
     (if i < unat (AdcChCnt s) then
        (case update_channel p i s of
           Inl e \<Rightarrow> Inl e
         | Inr s' \<Rightarrow> update_loop p (Suc i) s')
      else Inr s)"
  by pat_completeness auto
termination
  by (relation "measure (\<lambda>(p, i, s). unat (AdcChCnt s) - i)")
    (auto simp: update_channel_def array_get_def array_set_def Let_def
      split: if_splits sum.splits)

declare update_loop.simps [simp del]

definition update :: "BatteryParams_t \<Rightarrow> LiPo \<Rightarrow> board \<Rightarrow> error + LiPo \<times> board" where
  "update p s h =
     (case updateVref s h of
        Inl e \<Rightarrow> Inl e
      | Inr (s1, h1) \<Rightarrow>
         (case update_loop p 0 s1 of
            Inl e \<Rightarrow> Inl e
          | Inr s2 \<Rightarrow> Inr (s2\<lparr>Samples := SampleCnt s2, SampleCnt := 0\<rparr>, h1)))"

subsection \<open>task\<close>

text \<open>
  The sampling loop of \<^verbatim>\<open>task\<close>: \<^verbatim>\<open>Accu[i] += analogRead(AdcChStart + i)\<close>, the pin
  number computed in \<^verbatim>\<open>size_t\<close>.
\<close>

function task_loop :: "nat \<Rightarrow> LiPo \<Rightarrow> board \<Rightarrow> error + LiPo \<times> board" where
  "task_loop i s h =
     (if i < unat (AdcChCnt s) then
        (case analogRead (ucast (AdcChStart s) + of_nat i) h of
           (r, h') \<Rightarrow>
             (case array_get (Accu s) i of
                Inl e \<Rightarrow> Inl e
              | Inr a \<Rightarrow> task_loop (Suc i) (s\<lparr>Accu := (Accu s)[i := a + r]\<rparr>) h'))
      else Inr (s, h))"
  by pat_completeness auto
termination
  by (relation "measure (\<lambda>(i, s, h). unat (AdcChCnt s) - i)") auto

declare task_loop.simps [simp del]

text \<open>
  \<^verbatim>\<open>task(millis)\<close>; the parameter is called \<open>now\<close> here. In \<^verbatim>\<open>millis - LastTick >= GateTime\<close>
  the difference is unsigned 32-bit and the \<^verbatim>\<open>uint16_t\<close> gate time is converted to it.
\<close>

definition task :: "u32 \<Rightarrow> BatteryParams_t \<Rightarrow> LiPo \<Rightarrow> board \<Rightarrow> error + bool \<times> LiPo \<times> board" where
  "task now p s h =
     (let s1 = s\<lparr>SampleCnt := SampleCnt s + 1\<rparr> in
      case task_loop 0 s1 h of
        Inl e \<Rightarrow> Inl e
      | Inr (s2, h2) \<Rightarrow>
         if now - LastTick s2 \<ge> ucast (GateTime s2) then
           (case update p (s2\<lparr>LastTick := now\<rparr>) h2 of
              Inl e \<Rightarrow> Inl e
            | Inr (s3, h3) \<Rightarrow> Inr (True, s3, h3))
         else Inr (False, s2, h2))"

subsection \<open>calibrate\<close>

text \<open>
  The busy loop of \<^verbatim>\<open>calibrate\<close>. It runs until the clock has moved on by more than the
  gate time, which a clock that stands still never does: no result is \<open>None\<close>.
\<close>

partial_function (option) calibrate_loop ::
    "u8 \<Rightarrow> LiPo \<Rightarrow> board \<Rightarrow> (error + LiPo \<times> board) option" where
  "calibrate_loop cell s h =
     (case millis h of
        (t, h1) \<Rightarrow>
          if t - LastTick s \<le> ucast (GateTime s) then
            (case analogRead (ucast (AdcChStart s) + ucast cell) h1 of
               (r, h2) \<Rightarrow>
                 (case array_get (Accu s) (unat cell) of
                    Inl e \<Rightarrow> Some (Inl e)
                  | Inr a \<Rightarrow>
                     calibrate_loop cell
                       (s\<lparr>Accu := (Accu s)[unat cell := a + r], SampleCnt := SampleCnt s + 1\<rparr>) h2))
          else Some (Inr (s, h1)))"

text \<open>
  \<^verbatim>\<open>calibrate(cell, voltage)\<close>. The calls of \<^verbatim>\<open>printf\<close> only read; the second one reads
  \<^verbatim>\<open>pParam->CellScale[cell]\<close>. \<^verbatim>\<open>memset(Accu, 0, sizeof(Accu))\<close> clears all
  \<^verbatim>\<open>LIPO_ADCCHANNELS\<close> elements. The function returns 0.
\<close>

definition calibrate ::
    "u8 \<Rightarrow> u32 \<Rightarrow> BatteryParams_t \<Rightarrow> LiPo \<Rightarrow> board
      \<Rightarrow> (error + u32 \<times> BatteryParams_t \<times> LiPo \<times> board) option" where
  "calibrate cell voltage p s h =
     (case updateVref s h of
        Inl e \<Rightarrow> Some (Inl e)
      | Inr (s1, h1) \<Rightarrow>
         (case array_set (Accu s1) (unat cell) 0 of
            Inl e \<Rightarrow> Some (Inl e)
          | Inr acc \<Rightarrow>
             (case millis h1 of
                (t, h2) \<Rightarrow>
                  (case calibrate_loop cell (s1\<lparr>Accu := acc, SampleCnt := 0, LastTick := t\<rparr>) h2 of
                     None \<Rightarrow> None
                   | Some (Inl e) \<Rightarrow> Some (Inl e)
                   | Some (Inr (s3, h3)) \<Rightarrow>
                      if 32 \<le> unat (CellScaleDen s3) then Some (Inl ShiftOutOfRange)
                      else
                        let voltage' = push_bit (unat (CellScaleDen s3)) voltage in
                        (case array_get (Accu s3) (unat cell) of
                           Inl e \<Rightarrow> Some (Inl e)
                         | Inr a \<Rightarrow>
                            if SampleCnt s3 = 0 then Some (Inl AverageDivideByZero)
                            else
                              let s4 = s3\<lparr>Accu := (Accu s3)[unat cell := a div SampleCnt s3]\<rparr>;
                                  s5 = s4\<lparr>Accu := (Accu s4)[unat cell :=
                                         LL_ADC_CALC_DATA_TO_VOLTAGE (VRefAdc s4) (Accu s4 ! unat cell)]\<rparr>
                              in
                              (case array_get (CellScale p) (unat cell) of
                                 Inl e \<Rightarrow> Some (Inl e)
                               | Inr old \<Rightarrow>
                                  if Accu s5 ! unat cell = 0 then Some (Inl ScaleDivideByZero)
                                  else
                                    let p' = p\<lparr>CellScale := (CellScale p)
                                               [unat cell := voltage' div Accu s5 ! unat cell]\<rparr>;
                                        s6 = s5\<lparr>Accu := replicate LIPO_ADCCHANNELS 0,
                                                SampleCnt := 0\<rparr>
                                    in
                                    (case millis h3 of
                                       (t', h4) \<Rightarrow>
                                         Some (Inr (0, p', s6\<lparr>LastTick := t'\<rparr>, h4)))))))))"

subsection \<open>Notions used by the properties\<close>

text \<open>The members that are not arrays agree in two states.\<close>

definition scalars_eq :: "LiPo \<Rightarrow> LiPo \<Rightarrow> bool" where
  "scalars_eq s s' = (CellScaleDen s' = CellScaleDen s \<and> AdcChStart s' = AdcChStart s
     \<and> AdcChCnt s' = AdcChCnt s \<and> GateTime s' = GateTime s \<and> LastTick s' = LastTick s
     \<and> SampleCnt s' = SampleCnt s \<and> Samples s' = Samples s \<and> VRefAdc s' = VRefAdc s)"

text \<open>The voltage that the spec prescribes for channel \<open>i\<close> at the end of a window.\<close>

definition channel_mV :: "BatteryParams_t \<Rightarrow> LiPo \<Rightarrow> nat \<Rightarrow> u32" where
  "channel_mV p s i =
     drop_bit (unat (CellScaleDen s))
       ((VRefAdc s * (Accu s ! i div SampleCnt s) div LL_ADC_DIGITAL_SCALE_12B) * CellScale p ! i)"

text \<open>
  The busy loop of \<open>calibrate\<close> takes exactly \<open>K\<close> samples on a board: after the call of
  \<^verbatim>\<open>millis\<close> that sets \<open>LastTick\<close>, the next \<open>K\<close> calls are within the gate time and the one
  after them is beyond it.
\<close>

definition calibrate_window :: "LiPo \<Rightarrow> board \<Rightarrow> nat \<Rightarrow> bool" where
  "calibrate_window s h K =
     ((\<forall>k\<in>{..<K}. clk_in h (Suc (clk_n h) + k) - clk_in h (clk_n h) \<le> ucast (GateTime s))
      \<and> \<not> clk_in h (Suc (clk_n h) + K) - clk_in h (clk_n h) \<le> ucast (GateTime s))"

text \<open>The average of the \<open>K\<close> raw codes sampled by the busy loop, and the voltage measured
  from it with the reference voltage read at the start of \<open>calibrate\<close>.\<close>

definition calibrate_raw :: "u8 \<Rightarrow> LiPo \<Rightarrow> board \<Rightarrow> nat \<Rightarrow> u32" where
  "calibrate_raw cell s h K =
     (\<Sum>k<K. adc_in h (Suc (adc_n h) + k) (ucast (AdcChStart s) + ucast cell)) div of_nat K"

definition calibrate_measured :: "u8 \<Rightarrow> LiPo \<Rightarrow> board \<Rightarrow> nat \<Rightarrow> u32" where
  "calibrate_measured cell s h K =
     LL_ADC_CALC_DATA_TO_VOLTAGE
       (LIPO_VREFINT * LL_ADC_DIGITAL_SCALE_12B div adc_in h (adc_n h) (AVREF h))
       (calibrate_raw cell s h K)"

text \<open>
  The states of the monitor that its public interface can produce: the constructor with
  a parameter structure of the right size, then \<open>setGateTime\<close>, \<open>task\<close> and \<open>calibrate\<close>
  whenever they return, on any board.
\<close>

inductive reachable :: "BatteryParams_t \<Rightarrow> LiPo \<Rightarrow> bool" where
  ctor: "wf_params p \<Longrightarrow> reachable p LiPo_ctor"
| setGateTime: "reachable p s \<Longrightarrow> reachable p (setGateTime ms s)"
| task: "reachable p s \<Longrightarrow> task now p s h = Inr (b, s', h') \<Longrightarrow> reachable p s'"
| calibrate: "reachable p s \<Longrightarrow> calibrate cell voltage p s h = Some (Inr (r, p', s', h'))
     \<Longrightarrow> reachable p' s'"

subsection \<open>Example states\<close>

text \<open>A pack of three cells on six channels: the three upper dividers read the pack voltage.\<close>

definition pack3 :: LiPo where
  "pack3 = LiPo_ctor\<lparr>VCell := [1000, 1900, 2800, 2800, 2800, 2800]\<rparr>"

text \<open>
  The round trip of the spec: the reference channel reads 4095, every cell channel reads
  2048, and every scale factor is 2048. The state holds three samples of a window.
\<close>

definition roundtrip_params :: BatteryParams_t where
  "roundtrip_params = \<lparr> CellScale = replicate LIPO_ADCCHANNELS 2048 \<rparr>"

definition roundtrip_state :: LiPo where
  "roundtrip_state = LiPo_ctor\<lparr>SampleCnt := 3, Accu := replicate LIPO_ADCCHANNELS (3 * 2048)\<rparr>"

definition roundtrip_board :: board where
  "roundtrip_board = \<lparr> AVREF = 17, adc_in = (\<lambda>k pin. if pin = 17 then 4095 else 2048),
     adc_n = 0, clk_in = (\<lambda>k. of_nat k), clk_n = 0 \<rparr>"

text \<open>
  A monitor whose sample counter has reached its largest value, and a board whose cell
  channels read 0 while the reference channel reads 1490.
\<close>

definition wrapped_state :: LiPo where
  "wrapped_state = LiPo_ctor\<lparr>SampleCnt := 0xFFFFFFFF\<rparr>"

definition quiet_board :: board where
  "quiet_board = \<lparr> AVREF = 17, adc_in = (\<lambda>k pin. if pin = 17 then 1490 else 0),
     adc_n = 0, clk_in = (\<lambda>k. 0), clk_n = 0 \<rparr>"

text \<open>A board whose reference channel reads 0 while the cell channels read 2048.\<close>

definition noref_board :: board where
  "noref_board = \<lparr> AVREF = 17, adc_in = (\<lambda>k pin. if pin = 17 then 0 else 2048),
     adc_n = 0, clk_in = (\<lambda>k. 0), clk_n = 0 \<rparr>"

text \<open>
  Boards for calibration: the clock advances by 100 ms from one call of \<^verbatim>\<open>millis\<close> to the
  next, the reference channel reads 1490, and the cell channels read 2000, or 0 when
  the wiring is broken. A monitor in the middle of a window, with results of an
  earlier one.
\<close>

definition calib_board :: board where
  "calib_board = \<lparr> AVREF = 17, adc_in = (\<lambda>k pin. if pin = 17 then 1490 else 2000),
     adc_n = 0, clk_in = (\<lambda>k. of_nat (100 * k)), clk_n = 0 \<rparr>"

definition broken_board :: board where
  "broken_board = \<lparr> AVREF = 17, adc_in = (\<lambda>k pin. if pin = 17 then 1490 else 0),
     adc_n = 0, clk_in = (\<lambda>k. of_nat (100 * k)), clk_n = 0 \<rparr>"


definition midwindow_state :: LiPo where
  "midwindow_state = LiPo_ctor\<lparr>SampleCnt := 7, Samples := 9, LastTick := 5,
     Accu := [70, 70, 70, 70, 70, 70], VCell := [1000, 1900, 2800, 2800, 2800, 2800]\<rparr>"

section \<open>Properties\<close>

lemma unat_AdcChCnt: "wf_obj s \<Longrightarrow> unat (AdcChCnt s) = LIPO_ADCCHANNELS"
  by (simp add: wf_obj_def LIPO_ADCCHANNELS_def)

lemma wf_obj_ctor: "wf_obj LiPo_ctor"
  by (simp add: wf_obj_def LiPo_ctor_def)

lemma wf_pack3: "wf_obj pack3"
  by (simp add: wf_obj_def pack3_def LiPo_ctor_def LIPO_ADCCHANNELS_def)

lemma pack3_fields:
  "VCell pack3 = [1000, 1900, 2800, 2800, 2800, 2800]" "AdcChCnt pack3 = 6"
  by (simp_all add: pack3_def LiPo_ctor_def LIPO_ADCCHANNELS_def)

subsection \<open>Reading cells\<close>

lemma of_nat_chan: "i < LIPO_ADCCHANNELS \<Longrightarrow> unat (of_nat i :: u8) = i"
  by (simp add: LIPO_ADCCHANNELS_def unat_of_nat)

lemma getCell_rel:
  assumes "wf_obj s" and "i < LIPO_ADCCHANNELS"
  shows "getCell s (of_nat i) False =
     Inr (if i = 0 then VCell s ! 0
          else if VCell s ! i \<ge> VCell s ! (i - 1) then VCell s ! i - VCell s ! (i - 1) else 0)"
proof -
  have u: "unat (of_nat i :: u8) = i" using assms(2) by (rule of_nat_chan)
  have l: "length (VCell s) = LIPO_ADCCHANNELS" using assms(1) by (simp add: wf_obj_def)
  have n: "unat (AdcChCnt s) = LIPO_ADCCHANNELS" using assms(1) by (rule unat_AdcChCnt)
  have z: "(of_nat i :: u8) = 0 \<longleftrightarrow> i = 0"
    using u by (metis unat_0 unat_eq_zero)
  have lt: "\<not> AdcChCnt s \<le> (of_nat i :: u8)"
    using u n assms(2) by (simp add: word_le_nat_alt)
  show ?thesis
    using u l z lt assms(2) by (auto simp add: getCell_def array_get_def)
qed

lemma getCell_rel_total:
  "wf_obj s \<Longrightarrow> i < LIPO_ADCCHANNELS \<Longrightarrow> \<exists>v. getCell s (of_nat i) False = Inr v"
  by (simp add: getCell_rel)

lemma getNumCells_loop_done:
  assumes "wf_obj s"
  shows "i \<le> LIPO_ADCCHANNELS \<Longrightarrow> getNumCells_loop s i c True =
           Inr (if \<exists>k. i \<le> k \<and> k < LIPO_ADCCHANNELS \<and> valid_cell s k then - 1 else c)"
proof (induction "LIPO_ADCCHANNELS - i" arbitrary: i)
  case 0
  then have "i = LIPO_ADCCHANNELS" by simp
  then show ?case using assms by (subst getNumCells_loop.simps) (auto simp add: unat_AdcChCnt)
next
  case (Suc n)
  then have lt: "i < LIPO_ADCCHANNELS" by simp
  obtain v where v: "getCell s (of_nat i) False = Inr v"
    using getCell_rel_total [OF assms lt] by blast
  have vc: "valid_cell s i = (v \<ge> LIPO_VCELL_MIN)" by (simp add: valid_cell_def v)
  show ?case
  proof (cases "v \<ge> LIPO_VCELL_MIN")
    case True
    then have "\<exists>k. i \<le> k \<and> k < LIPO_ADCCHANNELS \<and> valid_cell s k"
      using lt vc by blast
    moreover have "getNumCells_loop s i c True = Inr (- 1)"
      using True lt v assms by (subst getNumCells_loop.simps) (simp add: unat_AdcChCnt)
    ultimately show ?thesis by simp
  next
    case False
    have ih: "getNumCells_loop s (Suc i) c True =
           Inr (if \<exists>k. Suc i \<le> k \<and> k < LIPO_ADCCHANNELS \<and> valid_cell s k then - 1 else c)"
      using Suc lt by (intro Suc.hyps(1)) simp_all
    have ex: "(\<exists>k. i \<le> k \<and> k < LIPO_ADCCHANNELS \<and> valid_cell s k)
          \<longleftrightarrow> (\<exists>k. Suc i \<le> k \<and> k < LIPO_ADCCHANNELS \<and> valid_cell s k)"
      using False vc by (metis Suc_leI le_neq_implies_less Suc_leD)
    have step: "getNumCells_loop s i c True = getNumCells_loop s (Suc i) c True"
      using False lt v assms by (subst getNumCells_loop.simps) (simp add: unat_AdcChCnt)
    show ?thesis unfolding step ih ex by (rule refl)
  qed
qed

lemma getNumCells_loop_open:
  assumes "wf_obj s"
  shows "i \<le> LIPO_ADCCHANNELS \<Longrightarrow> getNumCells_loop s i c False =
           Inr (if \<exists>j k. i \<le> j \<and> j < k \<and> k < LIPO_ADCCHANNELS \<and> \<not> valid_cell s j \<and> valid_cell s k
                then - 1
                else c + of_nat (length (takeWhile (valid_cell s) [i..<LIPO_ADCCHANNELS])))"
proof (induction "LIPO_ADCCHANNELS - i" arbitrary: i c)
  case 0
  then have "i = LIPO_ADCCHANNELS" by simp
  then show ?case using assms by (subst getNumCells_loop.simps) (auto simp add: unat_AdcChCnt)
next
  case (Suc n)
  then have lt: "i < LIPO_ADCCHANNELS" by simp
  obtain v where v: "getCell s (of_nat i) False = Inr v"
    using getCell_rel_total [OF assms lt] by blast
  have vc: "valid_cell s i = (v \<ge> LIPO_VCELL_MIN)" by (simp add: valid_cell_def v)
  have upt: "[i..<LIPO_ADCCHANNELS] = i # [Suc i..<LIPO_ADCCHANNELS]"
    using lt by (rule upt_conv_Cons)
  show ?case
  proof (cases "v \<ge> LIPO_VCELL_MIN")
    case True
    have ih: "getNumCells_loop s (Suc i) (c + 1) False =
           Inr (if \<exists>j k. Suc i \<le> j \<and> j < k \<and> k < LIPO_ADCCHANNELS \<and> \<not> valid_cell s j \<and> valid_cell s k
                then - 1
                else (c + 1) + of_nat (length (takeWhile (valid_cell s) [Suc i..<LIPO_ADCCHANNELS])))"
      using Suc lt by (intro Suc.hyps(1)) simp_all
    have ex: "(\<exists>j k. i \<le> j \<and> j < k \<and> k < LIPO_ADCCHANNELS \<and> \<not> valid_cell s j \<and> valid_cell s k)
          \<longleftrightarrow> (\<exists>j k. Suc i \<le> j \<and> j < k \<and> k < LIPO_ADCCHANNELS \<and> \<not> valid_cell s j \<and> valid_cell s k)"
      using True vc by (metis Suc_leI le_neq_implies_less Suc_leD)
    have tw: "length (takeWhile (valid_cell s) [i..<LIPO_ADCCHANNELS])
            = Suc (length (takeWhile (valid_cell s) [Suc i..<LIPO_ADCCHANNELS]))"
      using True vc by (simp add: upt)
    have step: "getNumCells_loop s i c False = getNumCells_loop s (Suc i) (c + 1) False"
      using True lt v assms by (subst getNumCells_loop.simps) (simp add: unat_AdcChCnt)
    have ar: "c + 1 + of_nat (length (takeWhile (valid_cell s) [Suc i..<LIPO_ADCCHANNELS]))
        = c + of_nat (Suc (length (takeWhile (valid_cell s) [Suc i..<LIPO_ADCCHANNELS])))"
      by simp
    show ?thesis unfolding step ih ex tw ar by (rule refl)
  next
    case False
    have dn: "getNumCells_loop s (Suc i) c True =
           Inr (if \<exists>k. Suc i \<le> k \<and> k < LIPO_ADCCHANNELS \<and> valid_cell s k then - 1 else c)"
      using lt by (intro getNumCells_loop_done [OF assms]) simp
    have ex: "(\<exists>j k. i \<le> j \<and> j < k \<and> k < LIPO_ADCCHANNELS \<and> \<not> valid_cell s j \<and> valid_cell s k)
          \<longleftrightarrow> (\<exists>k. Suc i \<le> k \<and> k < LIPO_ADCCHANNELS \<and> valid_cell s k)"
      using False vc by (metis Suc_leI le_less_trans le_refl less_le_trans Suc_le_lessD)
    have tw: "takeWhile (valid_cell s) [i..<LIPO_ADCCHANNELS] = []"
      using False vc by (simp add: upt)
    have step: "getNumCells_loop s i c False = getNumCells_loop s (Suc i) c True"
      using False lt v assms by (subst getNumCells_loop.simps) (simp add: unat_AdcChCnt)
    show ?thesis unfolding step dn ex tw by auto
  qed
qed

lemma sint_of_nat_small: "n < 128 \<Longrightarrow> sint (of_nat n :: i8) = int n"
  by (simp add: signed_of_nat signed_take_bit_int_eq_self)

lemma takeWhile_upt_valid:
  assumes "i < length (takeWhile P [0..<n])"
  shows "P i"
proof -
  have "takeWhile P [0..<n] ! i \<in> set (takeWhile P [0..<n])"
    using assms by (rule nth_mem)
  then have "P (takeWhile P [0..<n] ! i)" by (rule set_takeWhileD [THEN conjunct2])
  moreover have "takeWhile P [0..<n] ! i = [0..<n] ! i"
    using assms by (rule takeWhile_nth)
  moreover have "i < n" using assms length_takeWhile_le [of P "[0..<n]"] by simp
  ultimately show ?thesis by simp
qed

lemma takeWhile_upt_le: "length (takeWhile P [0..<n]) \<le> n"
  using length_takeWhile_le [of P "[0..<n]"] by simp


text \<open>
  C6: for a channel index \<open>i\<close> with \<open>0 < i < AdcChCnt\<close>, \<open>getCell i false\<close> is
  \<open>VCell[i] - VCell[i-1]\<close> when \<open>VCell[i] \<ge> VCell[i-1]\<close> and 0 otherwise; for every
  valid index \<open>getCell i true\<close> is \<open>VCell[i]\<close>, and so is \<open>getCell 0\<close> whatever the flag.
\<close>

theorem getCell_valid_index:
  assumes "wf_obj s" and "i < AdcChCnt s"
  shows "getCell s i True = Inr (VCell s ! unat i)
     \<and> getCell s 0 absolute = Inr (VCell s ! 0)
     \<and> (0 < i \<longrightarrow> getCell s i False =
           Inr (if VCell s ! unat i \<ge> VCell s ! (unat i - 1)
                then VCell s ! unat i - VCell s ! (unat i - 1) else 0))"
proof -
  have n: "unat (AdcChCnt s) = LIPO_ADCCHANNELS"
    using assms(1) by (rule unat_AdcChCnt)
  have l: "length (VCell s) = LIPO_ADCCHANNELS"
    using assms(1) by (simp add: wf_obj_def)
  have i: "unat i < LIPO_ADCCHANNELS"
    using assms(2) n by (simp add: word_less_nat_alt)
  have a: "getCell s i True = Inr (VCell s ! unat i)"
    using i l by (simp add: getCell_def array_get_def)
  have b: "getCell s 0 absolute = Inr (VCell s ! 0)"
    using l by (simp add: getCell_def array_get_def LIPO_ADCCHANNELS_def)
  have c: "getCell s i False =
           Inr (if VCell s ! unat i \<ge> VCell s ! (unat i - 1)
                then VCell s ! unat i - VCell s ! (unat i - 1) else 0)" if "0 < i"
  proof -
    have "i \<noteq> 0" using that by auto
    moreover have "\<not> AdcChCnt s \<le> i" using assms(2) by auto
    ultimately show ?thesis
      using i l by (simp add: getCell_def array_get_def)
  qed
  from a b c show ?thesis by blast
qed

theorem getCell_valid_index_witness:
  "wf_obj pack3 \<and> (1::u8) < AdcChCnt pack3 \<and> getCell pack3 1 True = Inr 1900
     \<and> getCell pack3 0 False = Inr 1000 \<and> getCell pack3 1 False = Inr 900"
proof -
  have lt: "(1::u8) < AdcChCnt pack3" by (simp add: pack3_fields)
  show ?thesis
    using getCell_valid_index [OF wf_pack3 lt, of False] lt wf_pack3
    by (simp add: pack3_fields)
qed

subsection \<open>Counting cells\<close>

text \<open>
  C5: \<open>getNumCells\<close> scans the channels from 0 upwards; a channel is valid when
  \<open>getCell\<close> of it is at least \<open>LIPO_VCELL_MIN\<close>. The result is \<open>-1\<close> exactly when a valid
  channel comes after an invalid one, and otherwise the length of the initial run of
  valid channels.
\<close>

theorem getNumCells_prefix_or_sentinel:
  assumes "wf_obj s"
  shows "\<exists>n. getNumCells s = Inr n
     \<and> (sint n = - 1 \<longleftrightarrow>
          (\<exists>j k. j < k \<and> k < unat (AdcChCnt s) \<and> \<not> valid_cell s j \<and> valid_cell s k))
     \<and> (sint n \<noteq> - 1 \<longrightarrow>
          sint n = int (length (takeWhile (valid_cell s) [0..<unat (AdcChCnt s)])))"
proof -
  define L where "L = length (takeWhile (valid_cell s) [0..<LIPO_ADCCHANNELS])"
  define B where "B \<longleftrightarrow>
    (\<exists>j k. 0 \<le> j \<and> j < k \<and> k < LIPO_ADCCHANNELS \<and> \<not> valid_cell s j \<and> valid_cell s k)"
  have N: "unat (AdcChCnt s) = LIPO_ADCCHANNELS" using assms by (rule unat_AdcChCnt)
  have r: "getNumCells s = Inr (if B then - 1 else 0 + of_nat L)"
    unfolding getNumCells_def L_def B_def
    by (rule getNumCells_loop_open [OF assms]) simp
  have "L \<le> LIPO_ADCCHANNELS" unfolding L_def by (rule takeWhile_upt_le)
  then have "L < 128" by (simp add: LIPO_ADCCHANNELS_def)
  then have sL: "sint (of_nat L :: i8) = int L" by (rule sint_of_nat_small)
  have B': "B \<longleftrightarrow> (\<exists>j k. j < k \<and> k < LIPO_ADCCHANNELS \<and> \<not> valid_cell s j \<and> valid_cell s k)"
    by (simp add: B_def)
  show ?thesis
  proof (cases B)
    case True
    then have "getNumCells s = Inr (- 1)" using r by simp
    then show ?thesis using True B' N by simp
  next
    case False
    then have "getNumCells s = Inr (of_nat L)" using r by simp
    moreover have "sint (of_nat L :: i8) \<noteq> - 1" using sL by simp
    ultimately show ?thesis using False B' N sL L_def by simp
  qed
qed

lemma getNumCells_pack3: "getNumCells pack3 = Inr 3"
  by code_simp

theorem getNumCells_prefix_or_sentinel_witness:
  "wf_obj pack3 \<and> getNumCells pack3 = Inr 3
     \<and> length (takeWhile (valid_cell pack3) [0..<unat (AdcChCnt pack3)]) = 3"
proof -
  obtain n where n: "getNumCells pack3 = Inr n"
    and l: "sint n \<noteq> - 1 \<longrightarrow>
          sint n = int (length (takeWhile (valid_cell pack3) [0..<unat (AdcChCnt pack3)]))"
    using getNumCells_prefix_or_sentinel [OF wf_pack3] by blast
  have "n = 3" using n getNumCells_pack3 by simp
  then show ?thesis using l wf_pack3 getNumCells_pack3 by simp
qed


subsection \<open>The weakest cell\<close>

lemma getMinCell_loop_fold:
  assumes "wf_obj s" and "nat (sint cells) \<le> LIPO_ADCCHANNELS"
    and "\<forall>j < nat (sint cells). valid_cell s j"
  shows "i \<le> nat (sint cells) \<Longrightarrow> getMinCell_loop s cells i volt =
     Inr (fold min (map (\<lambda>j. projr (getCell s (of_nat j) False)) [i..<nat (sint cells)]) volt)"
proof (induction "nat (sint cells) - i" arbitrary: i volt)
  case 0
  then have "i = nat (sint cells)" by simp
  then show ?case by (subst getMinCell_loop.simps) auto
next
  case (Suc n)
  then have lt: "i < nat (sint cells)" by simp
  then have lt': "int i < sint cells" by simp
  have iN: "i < LIPO_ADCCHANNELS" using lt assms(2) by simp
  obtain v where v: "getCell s (of_nat i) False = Inr v"
    using getCell_rel_total [OF assms(1) iN] by blast
  have "valid_cell s i" using assms(3) lt by simp
  then have ge: "LIPO_VCELL_MIN \<le> v" by (simp add: valid_cell_def v)
  have upt: "[i..<nat (sint cells)] = i # [Suc i..<nat (sint cells)]"
    using lt by (rule upt_conv_Cons)
  have step: "getMinCell_loop s cells i volt = getMinCell_loop s cells (Suc i) (min volt v)"
    using lt' v ge by (subst getMinCell_loop.simps) simp
  have ih: "getMinCell_loop s cells (Suc i) (min volt v) =
     Inr (fold min (map (\<lambda>j. projr (getCell s (of_nat j) False)) [Suc i..<nat (sint cells)]) (min volt v))"
    using Suc lt by (intro Suc.hyps(1)) simp_all
  show ?case unfolding step ih upt by (simp add: v min.commute)
qed

lemma min_max_word: "min (0xFFFFFFFF :: u32) x = x" "min x (0xFFFFFFFF :: u32) = x"
proof -
  have e: "(0xFFFFFFFF :: u32) = - 1" by simp
  have "x \<le> - 1" by simp
  then show "min (0xFFFFFFFF :: u32) x = x" unfolding e by (simp add: min_def antisym)
  then show "min x (0xFFFFFFFF :: u32) = x" by (simp add: min.commute)
qed

text \<open>
  C7: when \<open>getNumCells\<close> returns the sentinel or 0, \<open>getMinCell\<close> returns 0; when it
  returns a count \<open>n > 0\<close>, \<open>getMinCell\<close> returns the smallest of the voltages
  \<open>getCell 0, ..., getCell (n - 1)\<close>, and that value is at least \<open>LIPO_VCELL_MIN\<close>.
\<close>

theorem getMinCell_smallest:
  assumes "wf_obj s" and "getNumCells s = Inr n"
  shows "(sint n \<le> 0 \<longrightarrow> getMinCell s = Inr 0)
     \<and> (0 < sint n \<longrightarrow>
          (\<exists>vs. length vs = nat (sint n)
             \<and> (\<forall>i < nat (sint n). getCell s (of_nat i) False = Inr (vs ! i))
             \<and> getMinCell s = Inr (Min (set vs))
             \<and> LIPO_VCELL_MIN \<le> Min (set vs)))"
proof (intro conjI impI)
  assume "sint n \<le> 0"
  then show "getMinCell s = Inr 0" using assms(2) by (simp add: getMinCell_def)
next
  assume pos: "0 < sint n"
  define L where "L = length (takeWhile (valid_cell s) [0..<LIPO_ADCCHANNELS])"
  define B where "B \<longleftrightarrow>
    (\<exists>j k. 0 \<le> j \<and> j < k \<and> k < LIPO_ADCCHANNELS \<and> \<not> valid_cell s j \<and> valid_cell s k)"
  have r: "getNumCells s = Inr (if B then - 1 else 0 + of_nat L)"
    unfolding getNumCells_def L_def B_def
    by (rule getNumCells_loop_open [OF assms(1)]) simp
  have LN: "L \<le> LIPO_ADCCHANNELS" unfolding L_def by (rule takeWhile_upt_le)
  then have "L < 128" by (simp add: LIPO_ADCCHANNELS_def)
  then have sL: "sint (of_nat L :: i8) = int L" by (rule sint_of_nat_small)
  have "\<not> B" using r assms(2) pos by (cases B) auto
  then have n: "n = of_nat L" using r assms(2) by simp
  then have nL: "nat (sint n) = L" using sL by simp
  have val: "\<forall>j < nat (sint n). valid_cell s j"
    unfolding nL L_def using takeWhile_upt_valid by blast
  define cv where "cv = (\<lambda>j. projr (getCell s (of_nat j :: u8) False))"
  define vs where "vs = map cv [0..<L]"
  have Lpos: "0 < L" using pos nL by simp
  have loop: "getMinCell_loop s n 0 0xFFFFFFFF = Inr (fold min vs 0xFFFFFFFF)"
    unfolding vs_def cv_def nL [symmetric]
    by (rule getMinCell_loop_fold [OF assms(1) _ val]) (simp_all add: nL LN)
  have vs_ne: "vs = cv 0 # map cv [Suc 0..<L]"
    unfolding vs_def using Lpos by (simp add: upt_conv_Cons)
  have "fold min vs (0xFFFFFFFF :: u32) = fold min (map cv [Suc 0..<L]) (cv 0)"
    unfolding vs_ne by (simp add: min_max_word)
  also have "\<dots> = Min (set vs)"
    unfolding vs_ne by (rule Min.set_eq_fold [symmetric])
  finally have res: "getMinCell s = Inr (Min (set vs))"
    using loop assms(2) pos by (simp add: getMinCell_def)
  have len: "length vs = nat (sint n)" by (simp add: vs_def nL)
  have each: "getCell s (of_nat i) False = Inr (vs ! i) \<and> LIPO_VCELL_MIN \<le> vs ! i"
    if "i < nat (sint n)" for i
  proof -
    have iL: "i < L" using that nL by simp
    then have iN: "i < LIPO_ADCCHANNELS" using LN by simp
    obtain v where v: "getCell s (of_nat i) False = Inr v"
      using getCell_rel_total [OF assms(1) iN] by blast
    have "valid_cell s i" using val that by simp
    then have "LIPO_VCELL_MIN \<le> v" by (simp add: valid_cell_def v)
    moreover have "vs ! i = v" using iL by (simp add: vs_def cv_def v)
    ultimately show ?thesis using v by simp
  qed
  have "vs \<noteq> []" using vs_ne by simp
  then have "Min (set vs) \<in> set vs" by (intro Min_in) simp_all
  then obtain i where "i < length vs" "vs ! i = Min (set vs)"
    by (auto simp: in_set_conv_nth)
  then have ge: "LIPO_VCELL_MIN \<le> Min (set vs)" using each len by metis
  show "\<exists>vs. length vs = nat (sint n)
             \<and> (\<forall>i < nat (sint n). getCell s (of_nat i) False = Inr (vs ! i))
             \<and> getMinCell s = Inr (Min (set vs))
             \<and> LIPO_VCELL_MIN \<le> Min (set vs)"
    using len each res ge by blast
qed

lemma getMinCell_pack3: "getMinCell pack3 = Inr 900"
  by code_simp

theorem getMinCell_smallest_witness:
  "wf_obj pack3 \<and> getNumCells pack3 = Inr 3 \<and> getMinCell pack3 = Inr 900
     \<and> LIPO_VCELL_MIN \<le> 900"
proof -
  have "0 < sint (3 :: i8)" by simp
  then obtain vs where "getMinCell pack3 = Inr (Min (set vs))" "LIPO_VCELL_MIN \<le> Min (set vs)"
    using getMinCell_smallest [OF wf_pack3 getNumCells_pack3] by blast
  then show ?thesis using getMinCell_pack3 wf_pack3 getNumCells_pack3 by simp
qed


subsection \<open>Finalizing a window\<close>

lemma update_channel_ok:
  assumes "wf_obj s" and "wf_params p" and "SampleCnt s \<noteq> 0" and "i < LIPO_ADCCHANNELS"
  shows "update_channel p i s =
     Inr (s\<lparr>Accu := (Accu s)[i := 0], VCell := (VCell s)[i := channel_mV p s i]\<rparr>)"
  using assms
  by (simp add: update_channel_def array_get_def array_set_def wf_obj_def wf_params_def
      channel_mV_def LL_ADC_CALC_DATA_TO_VOLTAGE_def LIPO_DENOMINATOR_def Let_def)

lemma update_loop_result:
  assumes "wf_params p" 
  shows "wf_obj s \<Longrightarrow> SampleCnt s \<noteq> 0 \<Longrightarrow> i \<le> LIPO_ADCCHANNELS \<Longrightarrow>
    \<exists>s'. update_loop p i s = Inr s' \<and> wf_obj s' \<and> scalars_eq s s'
       \<and> (\<forall>j < LIPO_ADCCHANNELS. Accu s' ! j = (if i \<le> j then 0 else Accu s ! j))
       \<and> (\<forall>j < LIPO_ADCCHANNELS. VCell s' ! j = (if i \<le> j then channel_mV p s j else VCell s ! j))"
proof (induction "LIPO_ADCCHANNELS - i" arbitrary: i s)
  case 0
  then have "i = LIPO_ADCCHANNELS" by simp
  then have "update_loop p i s = Inr s"
    using 0 by (subst update_loop.simps) (simp add: unat_AdcChCnt)
  then show ?case using 0 by (simp add: scalars_eq_def)
next
  case (Suc n)
  then have lt: "i < LIPO_ADCCHANNELS" by simp
  define s1 where "s1 = s\<lparr>Accu := (Accu s)[i := 0], VCell := (VCell s)[i := channel_mV p s i]\<rparr>"
  have ch: "update_channel p i s = Inr s1"
    unfolding s1_def using Suc.prems(1) assms Suc.prems(2) lt by (rule update_channel_ok)
  have wf1: "wf_obj s1" using Suc.prems(1) by (simp add: s1_def wf_obj_def)
  have sc1: "scalars_eq s s1" by (simp add: s1_def scalars_eq_def)
  have cnt1: "SampleCnt s1 \<noteq> 0" using Suc.prems(2) by (simp add: s1_def)
  have step: "update_loop p i s = update_loop p (Suc i) s1"
    using lt ch Suc.prems(1) by (subst update_loop.simps) (simp add: unat_AdcChCnt)
  have n: "n = LIPO_ADCCHANNELS - Suc i" using Suc.hyps(2) by simp
  have le: "Suc i \<le> LIPO_ADCCHANNELS" using lt by simp
  obtain s' where r: "update_loop p (Suc i) s1 = Inr s'" and wf': "wf_obj s'"
    and sc': "scalars_eq s1 s'"
    and a': "\<forall>j < LIPO_ADCCHANNELS. Accu s' ! j = (if Suc i \<le> j then 0 else Accu s1 ! j)"
    and v': "\<forall>j < LIPO_ADCCHANNELS. VCell s' ! j = (if Suc i \<le> j then channel_mV p s1 j else VCell s1 ! j)"
    using Suc.hyps(1) [OF n wf1 cnt1 le] by blast
  have la: "length (Accu s) = LIPO_ADCCHANNELS" and lv: "length (VCell s) = LIPO_ADCCHANNELS"
    using Suc.prems(1) by (simp_all add: wf_obj_def)
  have mv: "channel_mV p s1 j = channel_mV p s j" if "Suc i \<le> j" for j
    using that by (simp add: channel_mV_def s1_def)
  have A: "\<forall>j < LIPO_ADCCHANNELS. Accu s' ! j = (if i \<le> j then 0 else Accu s ! j)"
    using a' la lt by (auto simp: s1_def nth_list_update)
  have V: "\<forall>j < LIPO_ADCCHANNELS. VCell s' ! j = (if i \<le> j then channel_mV p s j else VCell s ! j)"
  proof (intro allI impI)
    fix j assume j: "j < LIPO_ADCCHANNELS"
    consider "j < i" | "j = i" | "Suc i \<le> j" by linarith
    then show "VCell s' ! j = (if i \<le> j then channel_mV p s j else VCell s ! j)"
    proof cases
      case 1 then show ?thesis using v' j lv by (simp add: s1_def)
    next
      case 2 then show ?thesis using v' j lv by (simp add: s1_def)
    next
      case 3 then show ?thesis using v' j mv by simp
    qed
  qed
  have "scalars_eq s s'" using sc1 sc' by (simp add: scalars_eq_def)
  then show ?case using step r wf' A V by simp
qed


lemma updateVref_ok:
  assumes "adc_in h (adc_n h) (AVREF h) \<noteq> 0"
  shows "updateVref s h =
    Inr (s\<lparr>VRefAdc := LIPO_VREFINT * LL_ADC_DIGITAL_SCALE_12B div adc_in h (adc_n h) (AVREF h)\<rparr>,
         h\<lparr>adc_n := Suc (adc_n h)\<rparr>)"
  using assms by (simp add: updateVref_def analogRead_def)

lemma roundtrip_update:
  "(case update roundtrip_params roundtrip_state roundtrip_board of
      Inl e \<Rightarrow> False
    | Inr (s', h') \<Rightarrow> VRefAdc s' = 1200 \<and> VCell s' = [600, 600, 600, 600, 600, 600])"
  by code_simp

lemma scaled_mV_nat:
  fixes v a c :: u32
  assumes "unat v * unat a < 2 ^ 32"
    and "unat v * unat a div 4095 * unat c < 2 ^ 32"
  shows "unat (drop_bit n (v * a div LL_ADC_DIGITAL_SCALE_12B * c))
     = unat v * unat a div 4095 * unat c div 2 ^ n"
proof -
  have m1: "unat (v * a) = unat v * unat a"
    using assms(1) by (simp add: unat_mult_lem [THEN iffD1])
  have d: "unat (v * a div LL_ADC_DIGITAL_SCALE_12B) = unat v * unat a div 4095"
    by (simp add: unat_div m1 LL_ADC_DIGITAL_SCALE_12B_def)
  have m2: "unat (v * a div LL_ADC_DIGITAL_SCALE_12B * c) = unat v * unat a div 4095 * unat c"
    using assms(2) d by (simp add: unat_mult_lem [THEN iffD1])
  have "unat (drop_bit n (v * a div LL_ADC_DIGITAL_SCALE_12B * c))
      = drop_bit n (unat (v * a div LL_ADC_DIGITAL_SCALE_12B * c))"
    by (rule unat_drop_bit_eq)
  also have "\<dots> = unat (v * a div LL_ADC_DIGITAL_SCALE_12B * c) div 2 ^ n"
    by (rule drop_bit_eq_div)
  finally show ?thesis unfolding m2 .
qed

text \<open>
  C4: when \<open>update\<close> finalizes a window, for every channel \<open>i\<close> below \<open>AdcChCnt\<close> the
  stored \<open>VCell[i]\<close> is \<open>(((VRefAdc * (Accu[i] / SampleCnt)) / 4095) * CellScale[i]) >> CellScaleDen\<close>
  in the unsigned 32-bit arithmetic of the code, where \<open>VRefAdc\<close> is the reference
  voltage just measured, and \<open>Accu[i]\<close> is 0 afterwards. When neither product exceeds
  32 bits this is the same formula on the integers. With a reference reading of 4095
  (1200 mV), a raw average of 2048 and a scale of 2048, the stored voltage is 600.
\<close>

theorem update_stores_formula:
  assumes "wf_obj s" and "wf_params p" and "SampleCnt s \<noteq> 0"
    and "adc_in h (adc_n h) (AVREF h) \<noteq> 0"
  shows "(\<exists>s' h'. update p s h = Inr (s', h')
      \<and> VRefAdc s' = LIPO_VREFINT * LL_ADC_DIGITAL_SCALE_12B div adc_in h (adc_n h) (AVREF h)
      \<and> (\<forall>i < unat (AdcChCnt s).
            VCell s' ! i =
              drop_bit (unat (CellScaleDen s))
                ((VRefAdc s' * (Accu s ! i div SampleCnt s) div LL_ADC_DIGITAL_SCALE_12B)
                  * CellScale p ! i)
          \<and> Accu s' ! i = 0
          \<and> (unat (VRefAdc s') * (unat (Accu s ! i) div unat (SampleCnt s)) < 2 ^ 32
               \<and> unat (VRefAdc s') * (unat (Accu s ! i) div unat (SampleCnt s)) div 4095
                    * unat (CellScale p ! i) < 2 ^ 32
              \<longrightarrow> unat (VCell s' ! i) =
                    unat (VRefAdc s') * (unat (Accu s ! i) div unat (SampleCnt s)) div 4095
                      * unat (CellScale p ! i) div 2 ^ unat (CellScaleDen s))))
    \<and> (\<exists>s' h'. update roundtrip_params roundtrip_state roundtrip_board = Inr (s', h')
          \<and> VRefAdc s' = 1200 \<and> VCell s' = [600, 600, 600, 600, 600, 600])"
proof
  define s1 where
    "s1 = s\<lparr>VRefAdc := LIPO_VREFINT * LL_ADC_DIGITAL_SCALE_12B div adc_in h (adc_n h) (AVREF h)\<rparr>"
  define h1 where "h1 = h\<lparr>adc_n := Suc (adc_n h)\<rparr>"
  have vr: "updateVref s h = Inr (s1, h1)"
    unfolding s1_def h1_def using assms(4) by (rule updateVref_ok)
  have wf1: "wf_obj s1" using assms(1) by (simp add: s1_def wf_obj_def)
  have cnt1: "SampleCnt s1 \<noteq> 0" using assms(3) by (simp add: s1_def)
  obtain s2 where l: "update_loop p 0 s1 = Inr s2" and sc: "scalars_eq s1 s2"
    and a: "\<forall>j < LIPO_ADCCHANNELS. Accu s2 ! j = (if 0 \<le> j then 0 else Accu s1 ! j)"
    and v: "\<forall>j < LIPO_ADCCHANNELS. VCell s2 ! j = (if 0 \<le> j then channel_mV p s1 j else VCell s1 ! j)"
    using update_loop_result [OF assms(2) wf1 cnt1, of 0] by auto
  define s3 where "s3 = s2\<lparr>Samples := SampleCnt s2, SampleCnt := 0\<rparr>"
  have u: "update p s h = Inr (s3, h1)"
    by (simp add: update_def vr l s3_def)
  have vref: "VRefAdc s3 = LIPO_VREFINT * LL_ADC_DIGITAL_SCALE_12B div adc_in h (adc_n h) (AVREF h)"
    using sc by (simp add: s3_def scalars_eq_def s1_def)
  have N: "unat (AdcChCnt s) = LIPO_ADCCHANNELS" using assms(1) by (rule unat_AdcChCnt)
  have each: "VCell s3 ! i =
              drop_bit (unat (CellScaleDen s))
                ((VRefAdc s3 * (Accu s ! i div SampleCnt s) div LL_ADC_DIGITAL_SCALE_12B)
                  * CellScale p ! i)
          \<and> Accu s3 ! i = 0
          \<and> (unat (VRefAdc s3) * (unat (Accu s ! i) div unat (SampleCnt s)) < 2 ^ 32
               \<and> unat (VRefAdc s3) * (unat (Accu s ! i) div unat (SampleCnt s)) div 4095
                    * unat (CellScale p ! i) < 2 ^ 32
              \<longrightarrow> unat (VCell s3 ! i) =
                    unat (VRefAdc s3) * (unat (Accu s ! i) div unat (SampleCnt s)) div 4095
                      * unat (CellScale p ! i) div 2 ^ unat (CellScaleDen s))"
    if "i < unat (AdcChCnt s)" for i
  proof -
    have i: "i < LIPO_ADCCHANNELS" using that N by simp
    have "VCell s3 ! i = channel_mV p s1 i" using v i by (simp add: s3_def)
    then have w: "VCell s3 ! i =
              drop_bit (unat (CellScaleDen s))
                ((VRefAdc s3 * (Accu s ! i div SampleCnt s) div LL_ADC_DIGITAL_SCALE_12B)
                  * CellScale p ! i)"
      unfolding vref by (simp add: channel_mV_def s1_def)
    have z: "Accu s3 ! i = 0" using a i by (simp add: s3_def)
    have av: "unat (Accu s ! i div SampleCnt s) = unat (Accu s ! i) div unat (SampleCnt s)"
      by (rule unat_div)
    have n: "unat (VCell s3 ! i) =
                    unat (VRefAdc s3) * (unat (Accu s ! i) div unat (SampleCnt s)) div 4095
                      * unat (CellScale p ! i) div 2 ^ unat (CellScaleDen s)"
      if "unat (VRefAdc s3) * (unat (Accu s ! i) div unat (SampleCnt s)) < 2 ^ 32"
        and "unat (VRefAdc s3) * (unat (Accu s ! i) div unat (SampleCnt s)) div 4095
                    * unat (CellScale p ! i) < 2 ^ 32"
      unfolding w using that scaled_mV_nat [of "VRefAdc s3" "Accu s ! i div SampleCnt s"
          "CellScale p ! i" "unat (CellScaleDen s)"]
      by (simp add: av)
    show ?thesis using w z n by blast
  qed
  show "\<exists>s' h'. update p s h = Inr (s', h')
      \<and> VRefAdc s' = LIPO_VREFINT * LL_ADC_DIGITAL_SCALE_12B div adc_in h (adc_n h) (AVREF h)
      \<and> (\<forall>i < unat (AdcChCnt s).
            VCell s' ! i =
              drop_bit (unat (CellScaleDen s))
                ((VRefAdc s' * (Accu s ! i div SampleCnt s) div LL_ADC_DIGITAL_SCALE_12B)
                  * CellScale p ! i)
          \<and> Accu s' ! i = 0
          \<and> (unat (VRefAdc s') * (unat (Accu s ! i) div unat (SampleCnt s)) < 2 ^ 32
               \<and> unat (VRefAdc s') * (unat (Accu s ! i) div unat (SampleCnt s)) div 4095
                    * unat (CellScale p ! i) < 2 ^ 32
              \<longrightarrow> unat (VCell s' ! i) =
                    unat (VRefAdc s') * (unat (Accu s ! i) div unat (SampleCnt s)) div 4095
                      * unat (CellScale p ! i) div 2 ^ unat (CellScaleDen s)))"
    using u vref each by blast
next
  show "\<exists>s' h'. update roundtrip_params roundtrip_state roundtrip_board = Inr (s', h')
          \<and> VRefAdc s' = 1200 \<and> VCell s' = [600, 600, 600, 600, 600, 600]"
    using roundtrip_update by (auto split: sum.splits)
qed

lemma wf_roundtrip: "wf_obj roundtrip_state" "wf_params roundtrip_params"
  by (simp_all add: wf_obj_def wf_params_def roundtrip_state_def roundtrip_params_def LiPo_ctor_def)

theorem update_stores_formula_witness:
  "wf_obj roundtrip_state \<and> wf_params roundtrip_params \<and> SampleCnt roundtrip_state \<noteq> 0
    \<and> adc_in roundtrip_board (adc_n roundtrip_board) (AVREF roundtrip_board) \<noteq> 0
    \<and> (\<exists>s' h'. update roundtrip_params roundtrip_state roundtrip_board = Inr (s', h')
          \<and> VCell s' ! 0 = 600 \<and> Accu s' ! 0 = 0)"
proof -
  have c: "SampleCnt roundtrip_state \<noteq> 0"
    by (simp add: roundtrip_state_def)
  have r: "adc_in roundtrip_board (adc_n roundtrip_board) (AVREF roundtrip_board) \<noteq> 0"
    by (simp add: roundtrip_board_def)
  have n: "0 < unat (AdcChCnt roundtrip_state)"
    by (simp add: roundtrip_state_def LiPo_ctor_def LIPO_ADCCHANNELS_def)
  obtain s' h' where u: "update roundtrip_params roundtrip_state roundtrip_board = Inr (s', h')"
    and a: "Accu s' ! 0 = 0"
    using update_stores_formula [OF wf_roundtrip c r] n by blast
  have "VCell s' ! 0 = 600" using roundtrip_update u by simp
  then show ?thesis using wf_roundtrip c r u a by blast
qed


subsection \<open>The periodic task\<close>

lemma task_loop_result:
  shows "wf_obj s \<Longrightarrow> i \<le> LIPO_ADCCHANNELS \<Longrightarrow>
    \<exists>s'. task_loop i s h = Inr (s', h\<lparr>adc_n := adc_n h + (LIPO_ADCCHANNELS - i)\<rparr>)
       \<and> wf_obj s' \<and> scalars_eq s s' \<and> VCell s' = VCell s
       \<and> (\<forall>j < LIPO_ADCCHANNELS. Accu s' ! j =
            (if i \<le> j then Accu s ! j + adc_in h (adc_n h + (j - i)) (ucast (AdcChStart s) + of_nat j)
             else Accu s ! j))"
proof (induction "LIPO_ADCCHANNELS - i" arbitrary: i s h)
  case 0
  then have "i = LIPO_ADCCHANNELS" by simp
  then have "task_loop i s h = Inr (s, h)"
    using 0 by (subst task_loop.simps) (simp add: unat_AdcChCnt)
  then show ?case using 0 by (simp add: scalars_eq_def)
next
  case (Suc n)
  then have lt: "i < LIPO_ADCCHANNELS" by simp
  have la: "length (Accu s) = LIPO_ADCCHANNELS"
    using Suc.prems(1) by (simp add: wf_obj_def)
  define r where "r = adc_in h (adc_n h) (ucast (AdcChStart s) + of_nat i)"
  define h1 where "h1 = h\<lparr>adc_n := Suc (adc_n h)\<rparr>"
  define s1 where "s1 = s\<lparr>Accu := (Accu s)[i := Accu s ! i + r]\<rparr>"
  have step: "task_loop i s h = task_loop (Suc i) s1 h1"
    using lt la Suc.prems(1)
    by (subst task_loop.simps)
      (simp add: unat_AdcChCnt analogRead_def array_get_def s1_def h1_def r_def)
  have wf1: "wf_obj s1" using Suc.prems(1) by (simp add: s1_def wf_obj_def)
  have n: "n = LIPO_ADCCHANNELS - Suc i" using Suc.hyps(2) by simp
  have le: "Suc i \<le> LIPO_ADCCHANNELS" using lt by simp
  obtain s' where res: "task_loop (Suc i) s1 h1 =
        Inr (s', h1\<lparr>adc_n := adc_n h1 + (LIPO_ADCCHANNELS - Suc i)\<rparr>)"
    and wf': "wf_obj s'" and sc': "scalars_eq s1 s'" and vc': "VCell s' = VCell s1"
    and a': "\<forall>j < LIPO_ADCCHANNELS. Accu s' ! j =
            (if Suc i \<le> j
             then Accu s1 ! j + adc_in h1 (adc_n h1 + (j - Suc i)) (ucast (AdcChStart s1) + of_nat j)
             else Accu s1 ! j)"
    using Suc.hyps(1) [OF n wf1 le, of h1] by blast
  have hh: "h1\<lparr>adc_n := adc_n h1 + (LIPO_ADCCHANNELS - Suc i)\<rparr>
      = h\<lparr>adc_n := adc_n h + (LIPO_ADCCHANNELS - i)\<rparr>"
    using lt by (simp add: h1_def)
  have A: "\<forall>j < LIPO_ADCCHANNELS. Accu s' ! j =
            (if i \<le> j then Accu s ! j + adc_in h (adc_n h + (j - i)) (ucast (AdcChStart s) + of_nat j)
             else Accu s ! j)"
  proof (intro allI impI)
    fix j assume j: "j < LIPO_ADCCHANNELS"
    consider "j < i" | "j = i" | "Suc i \<le> j" by linarith
    then show "Accu s' ! j =
            (if i \<le> j then Accu s ! j + adc_in h (adc_n h + (j - i)) (ucast (AdcChStart s) + of_nat j)
             else Accu s ! j)"
    proof cases
      case 1 then show ?thesis using a' j la by (simp add: s1_def)
    next
      case 2 then show ?thesis using a' j la by (simp add: s1_def r_def)
    next
      case 3
      then have "adc_n h1 + (j - Suc i) = adc_n h + (j - i)" by (simp add: h1_def)
      then show ?thesis using 3 a' j la by (simp add: s1_def h1_def)
    qed
  qed
  have "scalars_eq s s'" using sc' by (simp add: scalars_eq_def s1_def)
  moreover have "VCell s' = VCell s" using vc' by (simp add: s1_def)
  ultimately show ?case using step res hh wf' A by simp
qed


lemma update_result:
  assumes "wf_obj s" and "wf_params p" and "SampleCnt s \<noteq> 0"
    and "adc_in h (adc_n h) (AVREF h) \<noteq> 0"
  shows "\<exists>s'. update p s h = Inr (s', h\<lparr>adc_n := Suc (adc_n h)\<rparr>) \<and> wf_obj s'
      \<and> Samples s' = SampleCnt s \<and> SampleCnt s' = 0 \<and> LastTick s' = LastTick s
      \<and> GateTime s' = GateTime s \<and> AdcChStart s' = AdcChStart s
      \<and> (\<forall>j < LIPO_ADCCHANNELS. Accu s' ! j = 0)"
proof -
  define s1 where
    "s1 = s\<lparr>VRefAdc := LIPO_VREFINT * LL_ADC_DIGITAL_SCALE_12B div adc_in h (adc_n h) (AVREF h)\<rparr>"
  define h1 where "h1 = h\<lparr>adc_n := Suc (adc_n h)\<rparr>"
  have vr: "updateVref s h = Inr (s1, h1)"
    unfolding s1_def h1_def using assms(4) by (rule updateVref_ok)
  have wf1: "wf_obj s1" using assms(1) by (simp add: s1_def wf_obj_def)
  have cnt1: "SampleCnt s1 \<noteq> 0" using assms(3) by (simp add: s1_def)
  obtain s2 where l: "update_loop p 0 s1 = Inr s2" and wf2: "wf_obj s2" and sc: "scalars_eq s1 s2"
    and a: "\<forall>j < LIPO_ADCCHANNELS. Accu s2 ! j = (if 0 \<le> j then 0 else Accu s1 ! j)"
    using update_loop_result [OF assms(2) wf1 cnt1, of 0] by auto
  define s3 where "s3 = s2\<lparr>Samples := SampleCnt s2, SampleCnt := 0\<rparr>"
  have u: "update p s h = Inr (s3, h1)"
    by (simp add: update_def vr l s3_def)
  have "wf_obj s3" using wf2 by (simp add: s3_def wf_obj_def)
  moreover have "Samples s3 = SampleCnt s \<and> SampleCnt s3 = 0 \<and> LastTick s3 = LastTick s
      \<and> GateTime s3 = GateTime s \<and> AdcChStart s3 = AdcChStart s"
    using sc by (simp add: s3_def s1_def scalars_eq_def)
  moreover have "\<forall>j < LIPO_ADCCHANNELS. Accu s3 ! j = 0" using a by (simp add: s3_def)
  ultimately show ?thesis using u unfolding h1_def by blast
qed

lemma task_before_gate:
  assumes "wf_obj s" and "\<not> ucast (GateTime s) \<le> now - LastTick s"
  shows "\<exists>s'. task now p s h = Inr (False, s', h\<lparr>adc_n := adc_n h + LIPO_ADCCHANNELS\<rparr>)
      \<and> wf_obj s' \<and> scalars_eq (s\<lparr>SampleCnt := SampleCnt s + 1\<rparr>) s' \<and> VCell s' = VCell s
      \<and> (\<forall>j < LIPO_ADCCHANNELS.
            Accu s' ! j = Accu s ! j + adc_in h (adc_n h + j) (ucast (AdcChStart s) + of_nat j))"
proof -
  define s0 where "s0 = s\<lparr>SampleCnt := SampleCnt s + 1\<rparr>"
  have wf0: "wf_obj s0" using assms(1) by (simp add: s0_def wf_obj_def)
  obtain s2 where l: "task_loop 0 s0 h = Inr (s2, h\<lparr>adc_n := adc_n h + (LIPO_ADCCHANNELS - 0)\<rparr>)"
    and wf2: "wf_obj s2" and sc: "scalars_eq s0 s2" and vc: "VCell s2 = VCell s0"
    and a: "\<forall>j < LIPO_ADCCHANNELS. Accu s2 ! j =
            (if 0 \<le> j then Accu s0 ! j + adc_in h (adc_n h + (j - 0)) (ucast (AdcChStart s0) + of_nat j)
             else Accu s0 ! j)"
    using task_loop_result [OF wf0, of 0 h] by blast
  have g: "\<not> ucast (GateTime s2) \<le> now - LastTick s2"
    using assms(2) sc by (simp add: scalars_eq_def s0_def)
  have "task now p s h = Inr (False, s2, h\<lparr>adc_n := adc_n h + LIPO_ADCCHANNELS\<rparr>)"
    using l g by (simp add: task_def s0_def)
  moreover have "\<forall>j < LIPO_ADCCHANNELS.
            Accu s2 ! j = Accu s ! j + adc_in h (adc_n h + j) (ucast (AdcChStart s) + of_nat j)"
    using a by (simp add: s0_def)
  moreover have "VCell s2 = VCell s" using vc by (simp add: s0_def)
  ultimately show ?thesis using wf2 sc unfolding s0_def by blast
qed

lemma task_at_gate:
  assumes "wf_obj s" and "wf_params p" and "ucast (GateTime s) \<le> now - LastTick s"
    and "SampleCnt s + 1 \<noteq> 0" and "adc_in h (adc_n h + LIPO_ADCCHANNELS) (AVREF h) \<noteq> 0"
  shows "\<exists>s'. task now p s h = Inr (True, s', h\<lparr>adc_n := Suc (adc_n h + LIPO_ADCCHANNELS)\<rparr>)
      \<and> wf_obj s' \<and> LastTick s' = now \<and> Samples s' = SampleCnt s + 1 \<and> SampleCnt s' = 0
      \<and> GateTime s' = GateTime s \<and> (\<forall>j < LIPO_ADCCHANNELS. Accu s' ! j = 0)"
proof -
  define s0 where "s0 = s\<lparr>SampleCnt := SampleCnt s + 1\<rparr>"
  define h2 where "h2 = h\<lparr>adc_n := adc_n h + LIPO_ADCCHANNELS\<rparr>"
  have wf0: "wf_obj s0" using assms(1) by (simp add: s0_def wf_obj_def)
  obtain s2 where l: "task_loop 0 s0 h = Inr (s2, h\<lparr>adc_n := adc_n h + (LIPO_ADCCHANNELS - 0)\<rparr>)"
    and wf2: "wf_obj s2" and sc: "scalars_eq s0 s2"
    using task_loop_result [OF wf0, of 0 h] by blast
  have l': "task_loop 0 s0 h = Inr (s2, h2)" using l by (simp add: h2_def)
  have g: "ucast (GateTime s2) \<le> now - LastTick s2"
    using assms(3) sc by (simp add: scalars_eq_def s0_def)
  define s2' where "s2' = s2\<lparr>LastTick := now\<rparr>"
  have wf2': "wf_obj s2'" using wf2 by (simp add: s2'_def wf_obj_def)
  have cnt: "SampleCnt s2' \<noteq> 0" using assms(4) sc by (simp add: s2'_def scalars_eq_def s0_def)
  have rd: "adc_in h2 (adc_n h2) (AVREF h2) \<noteq> 0" using assms(5) by (simp add: h2_def)
  obtain s3 where u: "update p s2' h2 = Inr (s3, h2\<lparr>adc_n := Suc (adc_n h2)\<rparr>)"
    and wf3: "wf_obj s3" and f: "Samples s3 = SampleCnt s2'" "SampleCnt s3 = 0"
      "LastTick s3 = LastTick s2'" "GateTime s3 = GateTime s2'"
    and z: "\<forall>j < LIPO_ADCCHANNELS. Accu s3 ! j = 0"
    using update_result [OF wf2' assms(2) cnt rd] by blast
  have "task now p s h = Inr (True, s3, h\<lparr>adc_n := Suc (adc_n h + LIPO_ADCCHANNELS)\<rparr>)"
    using l' g u by (simp add: task_def s0_def s2'_def h2_def)
  moreover have "LastTick s3 = now \<and> Samples s3 = SampleCnt s + 1 \<and> GateTime s3 = GateTime s"
    using f sc by (simp add: s2'_def scalars_eq_def s0_def)
  ultimately show ?thesis using wf3 f(2) z by blast
qed

text \<open>
  C3, as amended: for every call of \<open>task now\<close> that, when it reaches the gate time, finds
  a sample counter other than \<open>0xFFFFFFFF\<close> and a reference channel that does not read 0,
  \<open>task\<close> returns, and it returns true exactly when \<open>now - LastTick \<ge> GateTime\<close> in
  unsigned 32-bit arithmetic. A call before the gate time has elapsed returns false and
  only counts the sample; the call at or after the boundary returns true, sets
  \<open>LastTick\<close> to \<open>now\<close>, stores the sample count of the window in \<open>Samples\<close> and resets
  \<open>SampleCnt\<close>, so that the calls that follow return false until the gate time has
  elapsed again.
\<close>

theorem task_gate:
  assumes "wf_obj s" and "wf_params p"
    and "ucast (GateTime s) \<le> now - LastTick s \<longrightarrow>
           SampleCnt s + 1 \<noteq> 0 \<and> adc_in h (adc_n h + LIPO_ADCCHANNELS) (AVREF h) \<noteq> 0"
  shows "\<exists>b s' h'. task now p s h = Inr (b, s', h')
      \<and> (b \<longleftrightarrow> ucast (GateTime s) \<le> now - LastTick s)
      \<and> (b \<longrightarrow> LastTick s' = now \<and> Samples s' = SampleCnt s + 1 \<and> SampleCnt s' = 0)
      \<and> (\<not> b \<longrightarrow> LastTick s' = LastTick s \<and> Samples s' = Samples s
                \<and> SampleCnt s' = SampleCnt s + 1)
      \<and> (\<forall>now2 h2. b \<and> \<not> ucast (GateTime s) \<le> now2 - now \<longrightarrow>
            (\<exists>s2 h2'. task now2 p s' h2 = Inr (False, s2, h2')))"
proof (cases "ucast (GateTime s) \<le> now - LastTick s")
  case True
  then have c: "SampleCnt s + 1 \<noteq> 0" and r: "adc_in h (adc_n h + LIPO_ADCCHANNELS) (AVREF h) \<noteq> 0"
    using assms(3) by simp_all
  obtain s' where t: "task now p s h = Inr (True, s', h\<lparr>adc_n := Suc (adc_n h + LIPO_ADCCHANNELS)\<rparr>)"
    and wf': "wf_obj s'" and f: "LastTick s' = now" "Samples s' = SampleCnt s + 1" "SampleCnt s' = 0"
      "GateTime s' = GateTime s"
    using task_at_gate [OF assms(1,2) True c r] by blast
  have nxt: "\<exists>s2 h2'. task now2 p s' h2 = Inr (False, s2, h2')"
    if "\<not> ucast (GateTime s) \<le> now2 - now" for now2 h2
  proof -
    have "\<not> ucast (GateTime s') \<le> now2 - LastTick s'" using that f by simp
    then show ?thesis using task_before_gate [OF wf', of now2 p h2] by blast
  qed
  show ?thesis using t True f nxt by auto
next
  case False
  obtain s' where t: "task now p s h = Inr (False, s', h\<lparr>adc_n := adc_n h + LIPO_ADCCHANNELS\<rparr>)"
    and sc: "scalars_eq (s\<lparr>SampleCnt := SampleCnt s + 1\<rparr>) s'"
    using task_before_gate [OF assms(1) False, of p h] by blast
  have "LastTick s' = LastTick s \<and> Samples s' = Samples s \<and> SampleCnt s' = SampleCnt s + 1"
    using sc by (simp add: scalars_eq_def)
  then show ?thesis using t False by auto
qed


lemma ctor_fields:
  "GateTime LiPo_ctor = 250" "LastTick LiPo_ctor = 0" "SampleCnt LiPo_ctor = 0"
  "Samples LiPo_ctor = 0" "AdcChCnt LiPo_ctor = 6" "AdcChStart LiPo_ctor = 0"
  by (simp_all add: LiPo_ctor_def LIPO_DEFAULT_GATETIME_def LIPO_ADCCHANNELS_def
      LIPO_ADCCHANNEL_0_def)

theorem task_gate_witness:
  "wf_obj LiPo_ctor \<and> wf_params roundtrip_params
    \<and> ucast (GateTime LiPo_ctor) \<le> (250 :: u32) - LastTick LiPo_ctor
    \<and> SampleCnt LiPo_ctor + 1 \<noteq> 0
    \<and> adc_in roundtrip_board (adc_n roundtrip_board + LIPO_ADCCHANNELS) (AVREF roundtrip_board) \<noteq> 0
    \<and> (\<exists>s' h'. task 250 roundtrip_params LiPo_ctor roundtrip_board = Inr (True, s', h')
          \<and> LastTick s' = 250 \<and> Samples s' = 1 \<and> SampleCnt s' = 0)
    \<and> (\<exists>s' h'. task 249 roundtrip_params LiPo_ctor roundtrip_board = Inr (False, s', h')
          \<and> LastTick s' = 0 \<and> Samples s' = 0 \<and> SampleCnt s' = 1)"
proof -
  have g: "ucast (GateTime LiPo_ctor) \<le> (250 :: u32) - LastTick LiPo_ctor"
    by (simp add: ctor_fields)
  have ng: "\<not> ucast (GateTime LiPo_ctor) \<le> (249 :: u32) - LastTick LiPo_ctor"
    by (simp add: ctor_fields)
  have c: "SampleCnt LiPo_ctor + 1 \<noteq> 0" by (simp add: ctor_fields)
  have r: "adc_in roundtrip_board (adc_n roundtrip_board + LIPO_ADCCHANNELS) (AVREF roundtrip_board) \<noteq> 0"
    by (simp add: roundtrip_board_def)
  have a: "\<exists>s' h'. task 250 roundtrip_params LiPo_ctor roundtrip_board = Inr (True, s', h')
          \<and> LastTick s' = 250 \<and> Samples s' = 1 \<and> SampleCnt s' = 0"
    using task_gate [OF wf_obj_ctor wf_roundtrip(2), of 250 roundtrip_board] g c r
    by (auto simp: ctor_fields)
  have b: "\<exists>s' h'. task 249 roundtrip_params LiPo_ctor roundtrip_board = Inr (False, s', h')
          \<and> LastTick s' = 0 \<and> Samples s' = 0 \<and> SampleCnt s' = 1"
    using task_gate [OF wf_obj_ctor wf_roundtrip(2), of 249 roundtrip_board] ng
    by (auto simp: ctor_fields)
  show ?thesis using wf_obj_ctor wf_roundtrip(2) g c r a b by blast
qed


subsection \<open>Calibration\<close>

lemma calibrate_loop_run:
  "unat cell < length (Accu s) \<Longrightarrow>
   \<forall>k<K. clk_in h (clk_n h + k) - LastTick s \<le> ucast (GateTime s) \<Longrightarrow>
   \<not> clk_in h (clk_n h + K) - LastTick s \<le> ucast (GateTime s) \<Longrightarrow>
   calibrate_loop cell s h =
     Some (Inr (s\<lparr>Accu := (Accu s)[unat cell := Accu s ! unat cell
                      + (\<Sum>k<K. adc_in h (adc_n h + k) (ucast (AdcChStart s) + ucast cell))],
                 SampleCnt := SampleCnt s + of_nat K\<rparr>,
               h\<lparr>adc_n := adc_n h + K, clk_n := Suc (clk_n h + K)\<rparr>))"
proof (induction K arbitrary: s h)
  case 0
  then show ?case
    by (subst calibrate_loop.simps) (simp add: millis_def)
next
  case (Suc K)
  define h1 where "h1 = h\<lparr>clk_n := Suc (clk_n h)\<rparr>"
  define r where "r = adc_in h (adc_n h) (ucast (AdcChStart s) + ucast cell)"
  define h2 where "h2 = h1\<lparr>adc_n := Suc (adc_n h)\<rparr>"
  define s1 where "s1 = s\<lparr>Accu := (Accu s)[unat cell := Accu s ! unat cell + r],
                            SampleCnt := SampleCnt s + 1\<rparr>"
  have c0: "clk_in h (clk_n h) - LastTick s \<le> ucast (GateTime s)"
    using Suc.prems(2) by (metis add.right_neutral zero_less_Suc)
  have step: "calibrate_loop cell s h = calibrate_loop cell s1 h2"
    using c0 Suc.prems(1)
    by (subst calibrate_loop.simps)
      (simp add: millis_def analogRead_def array_get_def s1_def h2_def h1_def r_def)
  have l1: "unat cell < length (Accu s1)" using Suc.prems(1) by (simp add: s1_def)
  have w1: "\<forall>k<K. clk_in h2 (clk_n h2 + k) - LastTick s1 \<le> ucast (GateTime s1)"
  proof (intro allI impI)
    fix k assume "k < K"
    then have "clk_in h (clk_n h + Suc k) - LastTick s \<le> ucast (GateTime s)"
      using Suc.prems(2) by (meson Suc_less_eq)
    then show "clk_in h2 (clk_n h2 + k) - LastTick s1 \<le> ucast (GateTime s1)"
      by (simp add: s1_def h2_def h1_def)
  qed
  have w2: "\<not> clk_in h2 (clk_n h2 + K) - LastTick s1 \<le> ucast (GateTime s1)"
    using Suc.prems(3) by (simp add: s1_def h2_def h1_def)
  have sm: "(\<Sum>k<Suc K. adc_in h (adc_n h + k) (ucast (AdcChStart s) + ucast cell))
      = r + (\<Sum>k<K. adc_in h (Suc (adc_n h + k)) (ucast (AdcChStart s) + ucast cell))"
    unfolding r_def by (subst sum.lessThan_Suc_shift) simp
  show ?case
    unfolding step Suc.IH [OF l1 w1 w2] sm
    using Suc.prems(1) by (simp add: s1_def h2_def h1_def add.assoc)
qed


lemma calibrate_run:
  assumes "wf_obj s" and "wf_params p" and "cell < AdcChCnt s"
    and "adc_in h (adc_n h) (AVREF h) \<noteq> 0"
    and "calibrate_window s h K" and "(of_nat K :: u32) \<noteq> 0"
  shows "calibrate cell voltage p s h =
    (if calibrate_measured cell s h K = 0 then Some (Inl ScaleDivideByZero)
     else Some (Inr (0,
       p\<lparr>CellScale := (CellScale p)[unat cell :=
            push_bit (unat (CellScaleDen s)) voltage div calibrate_measured cell s h K]\<rparr>,
       s\<lparr>VRefAdc := LIPO_VREFINT * LL_ADC_DIGITAL_SCALE_12B div adc_in h (adc_n h) (AVREF h),
          Accu := replicate LIPO_ADCCHANNELS 0, SampleCnt := 0,
          LastTick := clk_in h (clk_n h + K + 2)\<rparr>,
       h\<lparr>adc_n := Suc (adc_n h) + K, clk_n := clk_n h + K + 3\<rparr>)))"
proof -
  define vref where
    "vref = LIPO_VREFINT * LL_ADC_DIGITAL_SCALE_12B div adc_in h (adc_n h) (AVREF h)"
  define c where "c = unat cell"
  note c = c_def [symmetric]
  have N: "unat (AdcChCnt s) = LIPO_ADCCHANNELS" using assms(1) by (rule unat_AdcChCnt)
  have cN: "c < LIPO_ADCCHANNELS" using assms(3) N by (simp add: c_def word_less_nat_alt)
  have la: "length (Accu s) = LIPO_ADCCHANNELS" and den: "CellScaleDen s = LIPO_DENOMINATOR"
    using assms(1) by (simp_all add: wf_obj_def)
  have lp: "length (CellScale p) = LIPO_ADCCHANNELS" using assms(2) by (simp add: wf_params_def)
  define s1 where "s1 = s\<lparr>VRefAdc := vref\<rparr>"
  define h1 where "h1 = h\<lparr>adc_n := Suc (adc_n h)\<rparr>"
  have vr: "updateVref s h = Inr (s1, h1)"
    unfolding s1_def h1_def vref_def using assms(4) by (rule updateVref_ok)
  define s2 where "s2 = s1\<lparr>Accu := (Accu s1)[c := 0], SampleCnt := 0, LastTick := clk_in h (clk_n h)\<rparr>"
  define h2 where "h2 = h1\<lparr>clk_n := Suc (clk_n h)\<rparr>"
  have l2: "unat cell < length (Accu s2)" using cN la by (simp add: s2_def s1_def c_def)
  have w1: "\<forall>k<K. clk_in h2 (clk_n h2 + k) - LastTick s2 \<le> ucast (GateTime s2)"
    using assms(5) by (simp add: calibrate_window_def s2_def s1_def h2_def h1_def)
  have w2: "\<not> clk_in h2 (clk_n h2 + K) - LastTick s2 \<le> ucast (GateTime s2)"
    using assms(5) by (simp add: calibrate_window_def s2_def s1_def h2_def h1_def)
  define total where
    "total = (\<Sum>k<K. adc_in h (Suc (adc_n h) + k) (ucast (AdcChStart s) + ucast cell))"
  define s3 where "s3 = s2\<lparr>Accu := (Accu s2)[c := total], SampleCnt := of_nat K\<rparr>"
  define h3 where "h3 = h2\<lparr>adc_n := adc_n h2 + K, clk_n := Suc (clk_n h2 + K)\<rparr>"
  have loop: "calibrate_loop cell s2 h2 = Some (Inr (s3, h3))"
    unfolding calibrate_loop_run [OF l2 w1 w2]
    using cN la by (simp add: s3_def h3_def total_def s2_def s1_def h2_def h1_def c_def)
  have m: "calibrate_measured cell s h K = LL_ADC_CALC_DATA_TO_VOLTAGE vref (total div of_nat K)"
    by (simp add: calibrate_measured_def calibrate_raw_def vref_def total_def)
  have a3: "Accu s3 ! c = total" "length (Accu s3) = LIPO_ADCCHANNELS" "SampleCnt s3 = of_nat K"
    "CellScaleDen s3 = LIPO_DENOMINATOR" "VRefAdc s3 = vref"
    using cN la den by (simp_all add: s3_def s2_def s1_def)
  have st: "array_set (Accu s1) c 0 = Inr ((Accu s1)[c := 0])"
    using cN la by (simp add: array_set_def s1_def)
  have loop': "calibrate_loop cell
      (s1\<lparr>Accu := (Accu s1)[c := 0], SampleCnt := 0, LastTick := clk_in h (clk_n h)\<rparr>) h2
      = Some (Inr (s3, h3))"
    using loop by (simp add: s2_def)
  have ml: "millis h1 = (clk_in h (clk_n h), h2)" by (simp add: millis_def h2_def h1_def)
  have ml3: "millis h3 = (clk_in h (clk_n h + K + 2),
      h\<lparr>adc_n := Suc (adc_n h) + K, clk_n := clk_n h + K + 3\<rparr>)"
    by (simp add: millis_def h3_def h2_def h1_def)
  have fin: "s3\<lparr>Accu := replicate LIPO_ADCCHANNELS 0, SampleCnt := 0,
        LastTick := clk_in h (clk_n h + K + 2)\<rparr>
      = s\<lparr>VRefAdc := vref, Accu := replicate LIPO_ADCCHANNELS 0, SampleCnt := 0,
          LastTick := clk_in h (clk_n h + K + 2)\<rparr>"
    by (simp add: s3_def s2_def s1_def)
  show ?thesis
    unfolding vref_def [symmetric]
    using cN la lp a3 assms(6) fin
    by (simp add: calibrate_def vr c st ml loop' ml3 m array_get_def Let_def
        LIPO_DENOMINATOR_def den)
qed


lemma calibrate_loop_frame_aux:
  assumes "calibrate_loop cell s h = Some y"
  shows "case y of
      Inl e \<Rightarrow> True
    | Inr (s', h') \<Rightarrow>
        CellScaleDen s' = CellScaleDen s \<and> AdcChStart s' = AdcChStart s
      \<and> AdcChCnt s' = AdcChCnt s \<and> GateTime s' = GateTime s \<and> LastTick s' = LastTick s
      \<and> Samples s' = Samples s \<and> VRefAdc s' = VRefAdc s \<and> VCell s' = VCell s
      \<and> length (Accu s') = length (Accu s)
      \<and> AVREF h' = AVREF h \<and> adc_in h' = adc_in h \<and> clk_in h' = clk_in h"
proof -
  let ?Q = "\<lambda>(c :: u8) (s :: LiPo) (h :: board) (y :: error + LiPo \<times> board). case y of
      Inl e \<Rightarrow> True
    | Inr (s', h') \<Rightarrow>
        CellScaleDen s' = CellScaleDen s \<and> AdcChStart s' = AdcChStart s
      \<and> AdcChCnt s' = AdcChCnt s \<and> GateTime s' = GateTime s \<and> LastTick s' = LastTick s
      \<and> Samples s' = Samples s \<and> VRefAdc s' = VRefAdc s \<and> VCell s' = VCell s
      \<and> length (Accu s') = length (Accu s)
      \<and> AVREF h' = AVREF h \<and> adc_in h' = adc_in h \<and> clk_in h' = clk_in h"
  have "?Q cell s h y"
  proof (rule calibrate_loop.raw_induct [OF _ assms, where P = ?Q])
    fix f :: "u8 \<Rightarrow> LiPo \<Rightarrow> board \<Rightarrow> (error + LiPo \<times> board) option"
      and cell :: u8 and s :: LiPo and h :: board and y :: "error + LiPo \<times> board"
    assume IH: "\<And>c s h y. f c s h = Some y \<Longrightarrow> ?Q c s h y"
    assume body: "(case millis h of
        (t, h1) \<Rightarrow>
          if t - LastTick s \<le> ucast (GateTime s) then
            (case analogRead (ucast (AdcChStart s) + ucast cell) h1 of
               (r, h2) \<Rightarrow>
                 (case array_get (Accu s) (unat cell) of
                    Inl e \<Rightarrow> Some (Inl e)
                  | Inr a \<Rightarrow>
                     f cell
                       (s\<lparr>Accu := (Accu s)[unat cell := a + r], SampleCnt := SampleCnt s + 1\<rparr>) h2))
          else Some (Inr (s, h1))) = Some y"
    show "?Q cell s h y"
    proof (cases "clk_in h (clk_n h) - LastTick s \<le> ucast (GateTime s)")
      case False
      then have "y = Inr (s, h\<lparr>clk_n := Suc (clk_n h)\<rparr>)"
        using body by (simp add: millis_def)
      then show ?thesis by simp
    next
      case True
      show ?thesis
      proof (cases "unat cell < length (Accu s)")
        case False
        then have "y = Inl ArrayIndexOutOfBounds"
          using body True by (simp add: millis_def analogRead_def array_get_def)
        then show ?thesis by simp
      next
        case inb: True
        define r where "r = adc_in h (adc_n h) (ucast (AdcChStart s) + ucast cell)"
        define s1 where "s1 = s\<lparr>Accu := (Accu s)[unat cell := Accu s ! unat cell + r],
                              SampleCnt := SampleCnt s + 1\<rparr>"
        define h2 where "h2 = h\<lparr>clk_n := Suc (clk_n h), adc_n := Suc (adc_n h)\<rparr>"
        have "f cell s1 h2 = Some y"
          using body True inb
          by (simp add: millis_def analogRead_def array_get_def s1_def h2_def r_def)
        from IH [OF this] show ?thesis
          by (cases y) (auto simp: s1_def h2_def)
      qed
    qed
  qed
  then show ?thesis .
qed

lemma calibrate_loop_frame:
  assumes "calibrate_loop cell s h = Some (Inr (s', h'))"
  shows "CellScaleDen s' = CellScaleDen s \<and> AdcChStart s' = AdcChStart s
      \<and> AdcChCnt s' = AdcChCnt s \<and> GateTime s' = GateTime s \<and> LastTick s' = LastTick s
      \<and> Samples s' = Samples s \<and> VRefAdc s' = VRefAdc s \<and> VCell s' = VCell s
      \<and> length (Accu s') = length (Accu s)
      \<and> AVREF h' = AVREF h \<and> adc_in h' = adc_in h \<and> clk_in h' = clk_in h"
  using calibrate_loop_frame_aux [OF assms] by simp


lemma calibrate_frame:
  assumes "calibrate cell voltage p s h = Some (Inr (r, p', s', h'))"
  shows "r = 0 \<and> Accu s' = replicate LIPO_ADCCHANNELS 0 \<and> SampleCnt s' = 0
     \<and> LastTick s' = clk_in h (clk_n h' - 1)
     \<and> VCell s' = VCell s \<and> Samples s' = Samples s
     \<and> AdcChCnt s' = AdcChCnt s \<and> CellScaleDen s' = CellScaleDen s
     \<and> GateTime s' = GateTime s \<and> AdcChStart s' = AdcChStart s
     \<and> length (CellScale p') = length (CellScale p)"
proof -
  obtain s1 h1 where vr: "updateVref s h = Inr (s1, h1)"
    using assms by (cases "updateVref s h") (auto simp: calibrate_def)
  obtain v where s1: "s1 = s\<lparr>VRefAdc := v\<rparr>" and h1: "h1 = h\<lparr>adc_n := Suc (adc_n h)\<rparr>"
    using vr by (auto simp: updateVref_def analogRead_def split: if_splits)
  obtain acc where st: "array_set (Accu s1) (unat cell) 0 = Inr acc"
    using assms vr by (cases "array_set (Accu s1) (unat cell) 0") (auto simp: calibrate_def)
  define s2 where "s2 = s1\<lparr>Accu := acc, SampleCnt := 0, LastTick := clk_in h1 (clk_n h1)\<rparr>"
  define h2 where "h2 = h1\<lparr>clk_n := Suc (clk_n h1)\<rparr>"
  have ml: "millis h1 = (clk_in h1 (clk_n h1), h2)" by (simp add: millis_def h2_def)
  obtain s3 h3 where loop: "calibrate_loop cell s2 h2 = Some (Inr (s3, h3))"
    using assms vr st ml
    by (cases "calibrate_loop cell s2 h2")
      (auto simp: calibrate_def s2_def split: sum.splits)
  note fr = calibrate_loop_frame [OF loop]
  have rest: "(if 32 \<le> unat (CellScaleDen s3) then Some (Inl ShiftOutOfRange)
      else
        let voltage' = push_bit (unat (CellScaleDen s3)) voltage in
        (case array_get (Accu s3) (unat cell) of
           Inl e \<Rightarrow> Some (Inl e)
         | Inr a \<Rightarrow>
            if SampleCnt s3 = 0 then Some (Inl AverageDivideByZero)
            else
              let s4 = s3\<lparr>Accu := (Accu s3)[unat cell := a div SampleCnt s3]\<rparr>;
                  s5 = s4\<lparr>Accu := (Accu s4)[unat cell :=
                         LL_ADC_CALC_DATA_TO_VOLTAGE (VRefAdc s4) (Accu s4 ! unat cell)]\<rparr>
              in
              (case array_get (CellScale p) (unat cell) of
                 Inl e \<Rightarrow> Some (Inl e)
               | Inr old \<Rightarrow>
                  if Accu s5 ! unat cell = 0 then Some (Inl ScaleDivideByZero)
                  else
                    let p' = p\<lparr>CellScale := (CellScale p)
                               [unat cell := voltage' div Accu s5 ! unat cell]\<rparr>;
                        s6 = s5\<lparr>Accu := replicate LIPO_ADCCHANNELS 0,
                                SampleCnt := 0\<rparr>
                    in
                    (case millis h3 of
                       (t', h4) \<Rightarrow>
                         Some (Inr (0, p', s6\<lparr>LastTick := t'\<rparr>, h4)))))) = Some (Inr (r, p', s', h'))"
    using assms vr st ml loop by (simp add: calibrate_def s2_def)
  then have "r = 0 \<and> Accu s' = replicate LIPO_ADCCHANNELS 0 \<and> SampleCnt s' = 0
     \<and> LastTick s' = clk_in h3 (clk_n h3) \<and> clk_n h' = Suc (clk_n h3)
     \<and> VCell s' = VCell s3 \<and> Samples s' = Samples s3
     \<and> AdcChCnt s' = AdcChCnt s3 \<and> CellScaleDen s' = CellScaleDen s3
     \<and> GateTime s' = GateTime s3 \<and> AdcChStart s' = AdcChStart s3
     \<and> length (CellScale p') = length (CellScale p)"
    by (auto simp: Let_def millis_def split: if_splits sum.splits)
  moreover have "clk_in h3 = clk_in h" using fr by (simp add: h2_def h1)
  moreover have "VCell s3 = VCell s \<and> Samples s3 = Samples s \<and> AdcChCnt s3 = AdcChCnt s
      \<and> CellScaleDen s3 = CellScaleDen s \<and> GateTime s3 = GateTime s \<and> AdcChStart s3 = AdcChStart s"
    using fr by (simp add: s2_def s1)
  ultimately show ?thesis by simp
qed


subsection \<open>Reachable states and the division of the average\<close>

lemma update_channel_wf:
  "update_channel p i s = Inr s' \<Longrightarrow> wf_obj s \<Longrightarrow> wf_obj s'"
  by (auto simp: update_channel_def array_get_def array_set_def Let_def wf_obj_def
      split: if_splits sum.splits)

lemma update_loop_wf:
  "update_loop p i s = Inr s' \<Longrightarrow> wf_obj s \<Longrightarrow> wf_obj s'"
proof (induction p i s rule: update_loop.induct)
  case (1 p i s)
  show ?case
  proof (cases "i < unat (AdcChCnt s)")
    case False
    then have "s' = s" using 1(2) by (subst (asm) update_loop.simps) simp
    then show ?thesis using 1(3) by simp
  next
    case True
    then obtain s1 where c: "update_channel p i s = Inr s1"
      and l: "update_loop p (Suc i) s1 = Inr s'"
      using 1(2) by (subst (asm) update_loop.simps) (auto split: sum.splits)
    have "wf_obj s1" using c 1(3) by (rule update_channel_wf)
    then show ?thesis using 1(1) [OF True c l] by simp
  qed
qed

lemma task_loop_wf:
  "task_loop i s h = Inr (s', h') \<Longrightarrow> wf_obj s \<Longrightarrow> wf_obj s'"
proof (induction i s h rule: task_loop.induct)
  case (1 i s h)
  show ?case
  proof (cases "i < unat (AdcChCnt s)")
    case False
    then have "s' = s" using 1(2) by (subst (asm) task_loop.simps) simp
    then show ?thesis using 1(3) by simp
  next
    case True
    obtain r h1 where a: "analogRead (ucast (AdcChStart s) + of_nat i) h = (r, h1)"
      by (cases "analogRead (ucast (AdcChStart s) + of_nat i) h")
    obtain x where g: "array_get (Accu s) i = Inr x"
      and l: "task_loop (Suc i) (s\<lparr>Accu := (Accu s)[i := x + r]\<rparr>) h1 = Inr (s', h')"
      using 1(2) True a by (subst (asm) task_loop.simps) (auto split: sum.splits)
    have "wf_obj (s\<lparr>Accu := (Accu s)[i := x + r]\<rparr>)" using 1(3) by (simp add: wf_obj_def)
    then show ?thesis using 1(1) [OF True a [symmetric] g l] by simp
  qed
qed

lemma task_wf:
  assumes "task now p s h = Inr (b, s', h')" and "wf_obj s"
  shows "wf_obj s'"
proof -
  obtain s2 h2 where l: "task_loop 0 (s\<lparr>SampleCnt := SampleCnt s + 1\<rparr>) h = Inr (s2, h2)"
    using assms(1) by (auto simp: task_def split: sum.splits)
  have wf2: "wf_obj s2"
    using l by (rule task_loop_wf) (use assms(2) in \<open>simp add: wf_obj_def\<close>)
  show ?thesis
  proof (cases "ucast (GateTime s2) \<le> now - LastTick s2")
    case False
    then have "s' = s2" using assms(1) l by (simp add: task_def)
    then show ?thesis using wf2 by simp
  next
    case True
    then obtain s1 h1 s3 where v: "updateVref (s2\<lparr>LastTick := now\<rparr>) h2 = Inr (s1, h1)"
      and u: "update_loop p 0 s1 = Inr s3"
      and e: "s' = s3\<lparr>Samples := SampleCnt s3, SampleCnt := 0\<rparr>"
      using assms(1) l by (auto simp: task_def update_def split: sum.splits)
    have "wf_obj s1"
      using v wf2 by (auto simp: updateVref_def analogRead_def wf_obj_def split: if_splits)
    with u have "wf_obj s3" by (rule update_loop_wf)
    then show ?thesis by (simp add: e wf_obj_def)
  qed
qed

lemma reachable_wf: "reachable p s \<Longrightarrow> wf_obj s \<and> wf_params p"
proof (induction rule: reachable.induct)
  case (ctor p)
  then show ?case by (simp add: wf_obj_ctor)
next
  case (setGateTime p s ms)
  then show ?case by (simp add: setGateTime_def wf_obj_def)
next
  case (task p s now h b s' h')
  then show ?case using task_wf by blast
next
  case (calibrate p s cell voltage h r p' s' h')
  from calibrate_frame [OF calibrate(2)] calibrate(3)
  show ?case by (simp add: wf_obj_def wf_params_def)
qed

lemma word_ge_1: "(x :: u32) \<noteq> 0 \<Longrightarrow> 1 \<le> x"
  by (simp add: word_le_nat_alt unat_gt_0 Suc_leI)

text \<open>
  C8, as amended: in every reachable state whose sample counter is not \<open>0xFFFFFFFF\<close>,
  the state that \<open>task\<close> hands to \<open>update\<close> has a sample counter of at least 1, and neither
  \<open>update\<close> on it nor \<open>task\<close> divides an accumulator by zero.
\<close>

theorem task_average_division_defined:
  assumes "reachable p s" and "SampleCnt s \<noteq> 0xFFFFFFFF"
  shows "\<exists>s2 h2. task_loop 0 (s\<lparr>SampleCnt := SampleCnt s + 1\<rparr>) h = Inr (s2, h2)
      \<and> 1 \<le> SampleCnt s2
      \<and> update p (s2\<lparr>LastTick := now\<rparr>) h2 \<noteq> Inl AverageDivideByZero
      \<and> task now p s h \<noteq> Inl AverageDivideByZero"
proof -
  have wf: "wf_obj s" and wp: "wf_params p" using reachable_wf [OF assms(1)] by simp_all
  define s0 where "s0 = s\<lparr>SampleCnt := SampleCnt s + 1\<rparr>"
  have wf0: "wf_obj s0" using wf by (simp add: s0_def wf_obj_def)
  obtain s2 where l: "task_loop 0 s0 h = Inr (s2, h\<lparr>adc_n := adc_n h + (LIPO_ADCCHANNELS - 0)\<rparr>)"
    and wf2: "wf_obj s2" and sc: "scalars_eq s0 s2"
    using task_loop_result [OF wf0, of 0 h] by blast
  define h2 where "h2 = h\<lparr>adc_n := adc_n h + LIPO_ADCCHANNELS\<rparr>"
  have l2: "task_loop 0 s0 h = Inr (s2, h2)" using l by (simp add: h2_def)
  have "SampleCnt s + 1 \<noteq> 0"
  proof
    assume "SampleCnt s + 1 = 0"
    then have "SampleCnt s = - 1" by (simp add: add_eq_0_iff2)
    then show False using assms(2) by simp
  qed
  then have nz: "SampleCnt s2 \<noteq> 0" using sc by (simp add: scalars_eq_def s0_def)
  then have ge: "1 \<le> SampleCnt s2" by (rule word_ge_1)
  define s2' where "s2' = s2\<lparr>LastTick := now\<rparr>"
  have wf2': "wf_obj s2'" using wf2 by (simp add: s2'_def wf_obj_def)
  have nz': "SampleCnt s2' \<noteq> 0" using nz by (simp add: s2'_def)
  have u: "update p s2' h2 \<noteq> Inl AverageDivideByZero"
  proof (cases "adc_in h2 (adc_n h2) (AVREF h2) = 0")
    case True
    then have "update p s2' h2 = Inl VrefDivideByZero"
      by (simp add: update_def updateVref_def analogRead_def)
    then show ?thesis by simp
  next
    case False
    then show ?thesis using update_result [OF wf2' wp nz' False] by auto
  qed
  have t: "task now p s h \<noteq> Inl AverageDivideByZero"
    using l2 u
    by (auto simp: task_def s0_def [symmetric] s2'_def [symmetric] split: sum.splits)
  show ?thesis using l2 ge u t unfolding s0_def s2'_def by blast
qed


lemma reachable_ctor: "reachable roundtrip_params LiPo_ctor"
  by (rule reachable.ctor) (rule wf_roundtrip(2))

theorem task_average_division_defined_witness:
  "reachable roundtrip_params LiPo_ctor \<and> SampleCnt LiPo_ctor \<noteq> 0xFFFFFFFF
     \<and> task 250 roundtrip_params LiPo_ctor roundtrip_board \<noteq> Inl AverageDivideByZero"
proof -
  have n: "SampleCnt LiPo_ctor \<noteq> 0xFFFFFFFF" by (simp add: ctor_fields)
  show ?thesis
    using task_average_division_defined [OF reachable_ctor n, of roundtrip_board 250]
      reachable_ctor n by blast
qed

lemma quiet_pin:
  assumes "j < LIPO_ADCCHANNELS"
  shows "adc_in quiet_board k (ucast (AdcChStart LiPo_ctor) + of_nat j) = 0"
proof -
  have "unat (of_nat j :: u32) = j"
    using assms by (simp add: unat_of_nat LIPO_ADCCHANNELS_def)
  then have "(of_nat j :: u32) \<noteq> 17" using assms by (auto simp: LIPO_ADCCHANNELS_def)
  then show ?thesis by (simp add: quiet_board_def ctor_fields)
qed

lemma reachable_count: "reachable roundtrip_params (LiPo_ctor\<lparr>SampleCnt := of_nat n\<rparr>)"
proof (induction n)
  case 0
  have "LiPo_ctor\<lparr>SampleCnt := of_nat 0\<rparr> = LiPo_ctor" by (simp add: LiPo_ctor_def)
  then show ?case using reachable_ctor by simp
next
  case (Suc n)
  define s where "s = LiPo_ctor\<lparr>SampleCnt := of_nat n\<rparr>"
  have wf: "wf_obj s" using wf_obj_ctor by (simp add: s_def wf_obj_def)
  have ng: "\<not> ucast (GateTime s) \<le> 0 - LastTick s" by (simp add: s_def ctor_fields)
  obtain s' where t: "task 0 roundtrip_params s quiet_board =
        Inr (False, s', quiet_board\<lparr>adc_n := adc_n quiet_board + LIPO_ADCCHANNELS\<rparr>)"
    and wf': "wf_obj s'" and sc: "scalars_eq (s\<lparr>SampleCnt := SampleCnt s + 1\<rparr>) s'"
    and vc: "VCell s' = VCell s"
    and ac: "\<forall>j < LIPO_ADCCHANNELS.
        Accu s' ! j = Accu s ! j + adc_in quiet_board (adc_n quiet_board + j)
                                     (ucast (AdcChStart s) + of_nat j)"
    using task_before_gate [OF wf ng, of roundtrip_params quiet_board] by blast
  have "Accu s' = Accu s"
  proof (rule nth_equalityI)
    show "length (Accu s') = length (Accu s)" using wf wf' by (simp add: wf_obj_def)
    fix j assume "j < length (Accu s')"
    then have j: "j < LIPO_ADCCHANNELS" using wf' by (simp add: wf_obj_def)
    have "AdcChStart s = AdcChStart LiPo_ctor" by (simp add: s_def)
    then show "Accu s' ! j = Accu s ! j" using ac j quiet_pin [OF j] by simp
  qed
  then have "s' = LiPo_ctor\<lparr>SampleCnt := of_nat (Suc n)\<rparr>"
    using sc vc by (intro LiPo.equality) (simp_all add: scalars_eq_def s_def)
  then show ?case using reachable.task [OF Suc [folded s_def] t] by simp
qed

lemma task_wrapped:
  "(case task 250 roundtrip_params wrapped_state quiet_board of
      Inl e \<Rightarrow> e = AverageDivideByZero
    | Inr x \<Rightarrow> False)"
  by code_simp

text \<open>
  C8 as stated fails: \<open>SampleCnt\<close> is a 32-bit counter, and \<open>2^32 - 1\<close> calls of \<open>task\<close>
  that do not reach the gate time leave it at \<open>0xFFFFFFFF\<close>. The increment of the next
  call wraps it to 0, and when that call reaches the gate time \<open>update\<close> divides by it.
\<close>

theorem task_divides_by_zero_after_wrap:
  "reachable roundtrip_params wrapped_state
     \<and> task 250 roundtrip_params wrapped_state quiet_board = Inl AverageDivideByZero"
proof -
  have "wrapped_state = LiPo_ctor\<lparr>SampleCnt := of_nat 4294967295\<rparr>"
    by (simp add: wrapped_state_def)
  then have "reachable roundtrip_params wrapped_state"
    using reachable_count [of 4294967295] by simp
  moreover have "task 250 roundtrip_params wrapped_state quiet_board = Inl AverageDivideByZero"
    using task_wrapped by (auto split: sum.splits)
  ultimately show ?thesis by simp
qed

lemma task_noref:
  "(case task 250 roundtrip_params LiPo_ctor noref_board of
      Inl e \<Rightarrow> e = VrefDivideByZero
    | Inr x \<Rightarrow> False)"
  by code_simp

text \<open>
  C3 as stated fails: not every call at or after the boundary returns true. In the
  reachable state whose sample counter is \<open>0xFFFFFFFF\<close> the call \<open>task 250\<close> reaches the gate
  time, wraps the counter to 0 and divides by it in \<open>update\<close>; on a freshly constructed
  monitor whose reference channel reads 0 the call \<open>task 250\<close> reaches the gate time and
  divides by that reading in \<open>updateVref\<close>. Neither call returns a value.
\<close>

theorem task_gate_reached_without_result:
  "reachable roundtrip_params wrapped_state
     \<and> ucast (GateTime wrapped_state) \<le> (250 :: u32) - LastTick wrapped_state
     \<and> task 250 roundtrip_params wrapped_state quiet_board = Inl AverageDivideByZero
     \<and> reachable roundtrip_params LiPo_ctor
     \<and> ucast (GateTime LiPo_ctor) \<le> (250 :: u32) - LastTick LiPo_ctor
     \<and> task 250 roundtrip_params LiPo_ctor noref_board = Inl VrefDivideByZero"
proof -
  have "wrapped_state = LiPo_ctor\<lparr>SampleCnt := of_nat 4294967295\<rparr>"
    by (simp add: wrapped_state_def)
  then have a: "reachable roundtrip_params wrapped_state"
    using reachable_count [of 4294967295] by simp
  have b: "ucast (GateTime wrapped_state) \<le> (250 :: u32) - LastTick wrapped_state"
    by (simp add: wrapped_state_def ctor_fields)
  have c: "task 250 roundtrip_params wrapped_state quiet_board = Inl AverageDivideByZero"
    using task_wrapped by (auto split: sum.splits)
  have d: "ucast (GateTime LiPo_ctor) \<le> (250 :: u32) - LastTick LiPo_ctor"
    by (simp add: ctor_fields)
  have e: "task 250 roundtrip_params LiPo_ctor noref_board = Inl VrefDivideByZero"
    using task_noref by (auto split: sum.splits)
  show ?thesis using a b c reachable_ctor d e by simp
qed

subsection \<open>Results of calibrate\<close>

lemma calib_window: "calibrate_window LiPo_ctor calib_board 2"
  by code_simp

lemma calib_measured: "calibrate_measured 0 LiPo_ctor calib_board 2 = 1610"
  by code_simp

lemma broken_window: "calibrate_window LiPo_ctor broken_board 2"
  by code_simp

lemma broken_measured: "calibrate_measured 0 LiPo_ctor broken_board 2 = 0"
  by code_simp

text \<open>
  C9: when the reference channel does not read 0, the busy loop takes \<open>K\<close> samples with
  \<open>K\<close> not 0 as a 32-bit count, and the measured voltage \<open>m\<close> (the average of the \<open>K\<close> raw
  codes of the channel, converted with the reference voltage just measured, no scale
  applied) is not 0, \<open>calibrate cell voltage\<close> returns 0 and stores
  \<open>(voltage << CellScaleDen) / m\<close> in \<open>CellScale[cell]\<close> of the caller's parameter
  structure, leaving the other scale factors as they were.
\<close>

theorem calibrate_stores_scale:
  assumes "wf_obj s" and "wf_params p" and "cell < AdcChCnt s"
    and "adc_in h (adc_n h) (AVREF h) \<noteq> 0"
    and "calibrate_window s h K" and "(of_nat K :: u32) \<noteq> 0"
    and "calibrate_measured cell s h K \<noteq> 0"
  shows "\<exists>p' s' h'. calibrate cell voltage p s h = Some (Inr (0, p', s', h'))
     \<and> CellScale p' = (CellScale p)[unat cell :=
          push_bit (unat (CellScaleDen s)) voltage div calibrate_measured cell s h K]
     \<and> CellScale p' ! unat cell =
          push_bit (unat (CellScaleDen s)) voltage div calibrate_measured cell s h K"
proof -
  have "unat cell < length (CellScale p)"
    using assms(1,2,3) unat_AdcChCnt [OF assms(1)]
    by (simp add: wf_params_def word_less_nat_alt)
  then show ?thesis
    using calibrate_run [OF assms(1-6), of voltage] assms(7) by simp
qed

theorem calibrate_stores_scale_witness:
  "wf_obj LiPo_ctor \<and> wf_params roundtrip_params \<and> (0 :: u8) < AdcChCnt LiPo_ctor
     \<and> adc_in calib_board (adc_n calib_board) (AVREF calib_board) \<noteq> 0
     \<and> calibrate_window LiPo_ctor calib_board 2 \<and> (of_nat 2 :: u32) \<noteq> 0
     \<and> calibrate_measured 0 LiPo_ctor calib_board 2 \<noteq> 0
     \<and> (\<exists>p' s' h'. calibrate 0 4200 roundtrip_params LiPo_ctor calib_board
            = Some (Inr (0, p', s', h'))
          \<and> CellScale p' ! 0 = 5342)"
proof -
  have c: "(0 :: u8) < AdcChCnt LiPo_ctor" by (simp add: ctor_fields)
  have r: "adc_in calib_board (adc_n calib_board) (AVREF calib_board) \<noteq> 0"
    by (simp add: calib_board_def)
  have k: "(of_nat 2 :: u32) \<noteq> 0" by simp
  have m: "calibrate_measured 0 LiPo_ctor calib_board 2 \<noteq> 0" by (simp add: calib_measured)
  have d: "unat (CellScaleDen LiPo_ctor) = 11"
    by (simp add: LiPo_ctor_def LIPO_DENOMINATOR_def)
  have "\<exists>p' s' h'. calibrate 0 4200 roundtrip_params LiPo_ctor calib_board
            = Some (Inr (0, p', s', h'))
          \<and> CellScale p' ! 0 = 5342"
    using calibrate_stores_scale [OF wf_obj_ctor wf_roundtrip(2) c r calib_window k m, of 4200]
    by (auto simp: calib_measured d)
  then show ?thesis using wf_obj_ctor wf_roundtrip(2) c r calib_window k m by blast
qed


text \<open>
  C10: whenever \<open>calibrate\<close> returns, all accumulators are 0, \<open>SampleCnt\<close> is 0 and
  \<open>LastTick\<close> is the value of the last call of \<open>millis\<close> that \<open>calibrate\<close> made, while
  \<open>VCell\<close>, \<open>Samples\<close> and \<open>getSamples\<close> are unchanged; and \<open>calibrate\<close> does return when
  the channel is in range, the reference channel does not read 0, the busy loop takes
  \<open>K\<close> samples with \<open>K\<close> not 0 as a 32-bit count, and the measured voltage is not 0.
\<close>

theorem calibrate_discards_window:
  "(calibrate cell voltage p s h = Some (Inr (r, p', s', h')) \<longrightarrow>
      Accu s' = replicate LIPO_ADCCHANNELS 0 \<and> SampleCnt s' = 0
      \<and> LastTick s' = clk_in h (clk_n h' - 1)
      \<and> VCell s' = VCell s \<and> Samples s' = Samples s \<and> getSamples s' = getSamples s)
   \<and> (wf_obj s \<and> wf_params p \<and> cell < AdcChCnt s \<and> adc_in h (adc_n h) (AVREF h) \<noteq> 0
        \<and> calibrate_window s h K \<and> (of_nat K :: u32) \<noteq> 0
        \<and> calibrate_measured cell s h K \<noteq> 0 \<longrightarrow>
      (\<exists>p' s' h'. calibrate cell voltage p s h = Some (Inr (0, p', s', h'))
         \<and> clk_n h' = clk_n h + K + 3))"
proof -
  have frame: "Accu s' = replicate LIPO_ADCCHANNELS 0 \<and> SampleCnt s' = 0
      \<and> LastTick s' = clk_in h (clk_n h' - 1)
      \<and> VCell s' = VCell s \<and> Samples s' = Samples s \<and> getSamples s' = getSamples s"
    if "calibrate cell voltage p s h = Some (Inr (r, p', s', h'))"
    using calibrate_frame [OF that] by (simp add: getSamples_def)
  have returns: "\<exists>p' s' h'. calibrate cell voltage p s h = Some (Inr (0, p', s', h'))
         \<and> clk_n h' = clk_n h + K + 3"
    if a: "wf_obj s \<and> wf_params p \<and> cell < AdcChCnt s \<and> adc_in h (adc_n h) (AVREF h) \<noteq> 0
        \<and> calibrate_window s h K \<and> (of_nat K :: u32) \<noteq> 0
        \<and> calibrate_measured cell s h K \<noteq> 0"
  proof -
    have "calibrate cell voltage p s h =
       Some (Inr (0,
         p\<lparr>CellScale := (CellScale p)[unat cell :=
              push_bit (unat (CellScaleDen s)) voltage div calibrate_measured cell s h K]\<rparr>,
         s\<lparr>VRefAdc := LIPO_VREFINT * LL_ADC_DIGITAL_SCALE_12B div adc_in h (adc_n h) (AVREF h),
            Accu := replicate LIPO_ADCCHANNELS 0, SampleCnt := 0,
            LastTick := clk_in h (clk_n h + K + 2)\<rparr>,
         h\<lparr>adc_n := Suc (adc_n h) + K, clk_n := clk_n h + K + 3\<rparr>))"
      using a calibrate_run [of s p cell h K voltage] by simp
    then show ?thesis by simp
  qed
  show ?thesis using frame returns by blast
qed

lemma wf_midwindow: "wf_obj midwindow_state"
  by (simp add: midwindow_state_def wf_obj_def LiPo_ctor_def LIPO_ADCCHANNELS_def)

lemma midwindow_window: "calibrate_window midwindow_state calib_board 2"
  by code_simp

lemma midwindow_measured: "calibrate_measured 0 midwindow_state calib_board 2 = 1610"
  by code_simp

theorem calibrate_discards_window_witness:
  "wf_obj midwindow_state \<and> wf_params roundtrip_params \<and> (0 :: u8) < AdcChCnt midwindow_state
     \<and> adc_in calib_board (adc_n calib_board) (AVREF calib_board) \<noteq> 0
     \<and> calibrate_window midwindow_state calib_board 2 \<and> (of_nat 2 :: u32) \<noteq> 0
     \<and> calibrate_measured 0 midwindow_state calib_board 2 \<noteq> 0
     \<and> (\<exists>p' s' h'. calibrate 0 4200 roundtrip_params midwindow_state calib_board
            = Some (Inr (0, p', s', h'))
         \<and> Accu s' = [0, 0, 0, 0, 0, 0] \<and> SampleCnt s' = 0 \<and> LastTick s' = 400
         \<and> VCell s' = [1000, 1900, 2800, 2800, 2800, 2800] \<and> Samples s' = 9)"
proof -
  have c: "(0 :: u8) < AdcChCnt midwindow_state"
    by (simp add: midwindow_state_def ctor_fields)
  have r: "adc_in calib_board (adc_n calib_board) (AVREF calib_board) \<noteq> 0"
    by (simp add: calib_board_def)
  have k: "(of_nat 2 :: u32) \<noteq> 0" by simp
  have m: "calibrate_measured 0 midwindow_state calib_board 2 \<noteq> 0"
    by (simp add: midwindow_measured)
  note t = calibrate_discards_window [of 0 4200 roundtrip_params midwindow_state calib_board]
  obtain p' s' h' where run: "calibrate 0 4200 roundtrip_params midwindow_state calib_board
        = Some (Inr (0, p', s', h'))" and n: "clk_n h' = clk_n calib_board + 2 + 3"
    using t [of _ _ _ _ 2, THEN conjunct2] wf_midwindow wf_roundtrip(2) c r midwindow_window k m
    by blast
  have "Accu s' = replicate LIPO_ADCCHANNELS 0 \<and> SampleCnt s' = 0
      \<and> LastTick s' = clk_in calib_board (clk_n h' - 1)
      \<and> VCell s' = VCell midwindow_state \<and> Samples s' = Samples midwindow_state"
    using t [of 0 p' s' h' 2, THEN conjunct1] run by simp
  then have "Accu s' = [0, 0, 0, 0, 0, 0] \<and> SampleCnt s' = 0 \<and> LastTick s' = 400
     \<and> VCell s' = [1000, 1900, 2800, 2800, 2800, 2800] \<and> Samples s' = 9"
    using n by (simp add: midwindow_state_def calib_board_def LIPO_ADCCHANNELS_def
        numeral_eq_Suc)
  then have "\<exists>p' s' h'. calibrate 0 4200 roundtrip_params midwindow_state calib_board
            = Some (Inr (0, p', s', h'))
         \<and> Accu s' = [0, 0, 0, 0, 0, 0] \<and> SampleCnt s' = 0 \<and> LastTick s' = 400
         \<and> VCell s' = [1000, 1900, 2800, 2800, 2800, 2800] \<and> Samples s' = 9"
    using run by blast
  then show ?thesis
    using wf_midwindow wf_roundtrip(2) c r midwindow_window k m by blast
qed


lemma getCell_out_of_range:
  assumes "wf_obj s" and "AdcChCnt s \<le> c"
  shows "getCell s c False = Inr 0" and "getCell s c True = Inl ArrayIndexOutOfBounds"
proof -
  have "LIPO_ADCCHANNELS \<le> unat c"
    using assms unat_AdcChCnt [OF assms(1)] by (simp add: word_le_nat_alt)
  moreover from this have "c \<noteq> 0" by (auto simp: LIPO_ADCCHANNELS_def)
  moreover have "length (VCell s) = LIPO_ADCCHANNELS" using assms(1) by (simp add: wf_obj_def)
  ultimately show "getCell s c False = Inr 0" and "getCell s c True = Inl ArrayIndexOutOfBounds"
    using assms(2) by (simp_all add: getCell_def array_get_def)
qed

lemma calibrate_out_of_range:
  assumes "wf_obj s" and "AdcChCnt s \<le> c" and "adc_in h (adc_n h) (AVREF h) \<noteq> 0"
  shows "calibrate c voltage p s h = Some (Inl ArrayIndexOutOfBounds)"
proof -
  have "LIPO_ADCCHANNELS \<le> unat c"
    using assms unat_AdcChCnt [OF assms(1)] by (simp add: word_le_nat_alt)
  moreover have "length (Accu s) = LIPO_ADCCHANNELS" using assms(1) by (simp add: wf_obj_def)
  ultimately show ?thesis
    by (simp add: calibrate_def updateVref_ok [OF assms(3)] array_set_def)
qed

text \<open>
  C1 fails on the code. With six channels, \<open>getCell 6 false\<close> returns 0 through the range
  check, but \<open>getCell 6 true\<close> takes the branch before the range check and reads
  \<open>VCell[6]\<close>, and \<open>calibrate 6 v\<close> writes \<open>Accu[6]\<close>: both are outside the arrays.
\<close>

theorem channel_index_out_of_range:
  "getCell LiPo_ctor 6 False = Inr 0
     \<and> getCell LiPo_ctor 6 True = Inl ArrayIndexOutOfBounds
     \<and> calibrate 6 4200 roundtrip_params LiPo_ctor calib_board = Some (Inl ArrayIndexOutOfBounds)"
proof -
  have c: "AdcChCnt LiPo_ctor \<le> 6" by (simp add: ctor_fields)
  have r: "adc_in calib_board (adc_n calib_board) (AVREF calib_board) \<noteq> 0"
    by (simp add: calib_board_def)
  show ?thesis
    using getCell_out_of_range [OF wf_obj_ctor c] calibrate_out_of_range [OF wf_obj_ctor c r]
    by simp
qed

text \<open>
  C2 fails on the code. On a board whose cell channel reads 0 the measured voltage is 0,
  and \<open>calibrate\<close> reaches \<^verbatim>\<open>voltage/Accu[cell]\<close> with a divisor of 0: nothing checks it.
\<close>

theorem calibrate_zero_measured_voltage:
  "calibrate_measured 0 LiPo_ctor broken_board 2 = 0
     \<and> calibrate 0 4200 roundtrip_params LiPo_ctor broken_board = Some (Inl ScaleDivideByZero)"
proof -
  have c: "(0 :: u8) < AdcChCnt LiPo_ctor" by (simp add: ctor_fields)
  have r: "adc_in broken_board (adc_n broken_board) (AVREF broken_board) \<noteq> 0"
    by (simp add: broken_board_def)
  have k: "(of_nat 2 :: u32) \<noteq> 0" by simp
  show ?thesis
    using calibrate_run [OF wf_obj_ctor wf_roundtrip(2) c r broken_window k, of 4200]
    by (simp add: broken_measured)
qed


end
